theory Spec2Isabelle
  imports Complex_Main "HOL-Library.Sublist" "HOL-Library.Multiset" "HOL-Library.Char_ord"
    "HOL-Library.List_Lexorder" "HOL-Library.Product_Lexorder"
begin

section \<open>Data model\<close>

text \<open>
  The combiner reads Telegram export archives through JSZip. An archive is seen as the
  sequence of its entries in enumeration order; an entry carries its path, the directory
  flag, the optional comment and its bytes.
\<close>

record JSZipObject =
  e_name :: string
  e_dir :: bool
  e_comment :: "string option"
  e_data :: string

text \<open>A browser \<open>File\<close>: its name, and the entries JSZip decodes from its bytes
  (\<open>None\<close> when the bytes are not a zip archive and \<open>loadAsync\<close> rejects).\<close>

record File =
  file_name :: string
  file_zip :: "JSZipObject list option"

record FileItem =
  fi_name :: string
  fi_path :: string
  fi_size :: nat
  fi_isDirectory :: bool
  fi_fileCount :: "nat option"

record ZipContent =
  zc_id :: string
  zc_name :: string
  zc_files :: "string list"
  zc_topLevelItems :: "FileItem list"
  zc_hasResultsJson :: bool
  zc_rootPrefix :: string
  zc_resultJsonPath :: string
  zc_error :: "string option"
  zc_originalFile :: "File option"

text \<open>A message of the log (interface \<open>TelegramMessage\<close>): the numeric id, the optional
  \<open>edited\<close> string, and every other field carried along unread.\<close>

record TelegramMessage =
  m_id :: int
  m_edited :: "string option"
  m_rest :: string

text \<open>The parsed \<open>result.json\<close>: \<open>r_messages\<close> is \<open>None\<close> when the field is missing or
  is not an array.\<close>

record resultData =
  r_id :: int
  r_name :: string
  r_type :: string
  r_messages :: "TelegramMessage list option"

record combinedResult =
  cr_name :: "string option"
  cr_type :: "string option"
  cr_id :: "int option"
  cr_messages :: "TelegramMessage list"

record combineStats =
  buffer :: combinedResult
  totalMessages :: int
  duplicateMessages :: int

datatype error =
    NoValidExports
  | NoValidResultJson
  | ZipLoadError
  | JsonParseError
  | ChatIdMismatch int int
  | ErrorProcessing string error
  | OriginalFileMissing string
  | ErrorCombining error

section \<open>JavaScript primitives\<close>

text \<open>Truthiness of an optional string: \<open>undefined\<close> and the empty string are falsy.\<close>

fun truthy :: "string option \<Rightarrow> bool" where
  "truthy None = False"
| "truthy (Some s) = (s \<noteq> [])"

text \<open>A \<open>Map\<close> keeps its keys in insertion order; \<open>set\<close> on a present key replaces the
  value where it stands.\<close>

fun Map_get :: "('k \<times> 'v) list \<Rightarrow> 'k \<Rightarrow> 'v option" where
  "Map_get [] k = None"
| "Map_get ((k', v) # kvs) k = (if k' = k then Some v else Map_get kvs k)"

definition Map_has :: "('k \<times> 'v) list \<Rightarrow> 'k \<Rightarrow> bool" where
  "Map_has m k = (Map_get m k \<noteq> None)"

fun Map_set :: "'k \<Rightarrow> 'v \<Rightarrow> ('k \<times> 'v) list \<Rightarrow> ('k \<times> 'v) list" where
  "Map_set k v [] = [(k, v)]"
| "Map_set k v ((k', v') # kvs) =
     (if k' = k then (k, v) # kvs else (k', v') # Map_set k v kvs)"

definition Map_values :: "('k \<times> 'v) list \<Rightarrow> 'v list" where
  "Map_values m = map snd m"

text \<open>A \<open>Set\<close> as the list of its elements in insertion order.\<close>

definition Set_add :: "'a \<Rightarrow> 'a list \<Rightarrow> 'a list" where
  "Set_add x xs = (if x \<in> set xs then xs else xs @ [x])"

text \<open>\<open>Array.prototype.sort\<close> with a comparator: a stable sort; an element goes before
  another when the comparator does not return a positive number.\<close>

fun sort_insert :: "('a \<Rightarrow> 'a \<Rightarrow> int) \<Rightarrow> 'a \<Rightarrow> 'a list \<Rightarrow> 'a list" where
  "sort_insert cmp x [] = [x]"
| "sort_insert cmp x (y # ys) =
     (if cmp x y \<le> 0 then x # y # ys else y # sort_insert cmp x ys)"

definition js_sort :: "('a \<Rightarrow> 'a \<Rightarrow> int) \<Rightarrow> 'a list \<Rightarrow> 'a list" where
  "js_sort cmp xs = foldr (sort_insert cmp) xs []"

text \<open>\<open>zip.file(path)\<close>: the entry of that exact name that is not a directory.\<close>

fun zip_file :: "JSZipObject list \<Rightarrow> string \<Rightarrow> JSZipObject option" where
  "zip_file [] p = None"
| "zip_file (e # es) p = (if e_name e = p \<and> \<not> e_dir e then Some e else zip_file es p)"

section \<open>Merging the message logs: \<open>combineResultJsonWithStats\<close>\<close>

text \<open>What the first loop finds for one archive: it is skipped (\<open>continue\<close>), the
  \<open>try\<close> block throws, or the log is parsed. \<open>JSON_parse\<close> is the platform's parser taken
  as a parameter; \<open>None\<close> is a thrown SyntaxError.\<close>

datatype readResult = Skipped | Failed error | Parsed resultData

definition readResultJson :: "(string \<Rightarrow> resultData option) \<Rightarrow> ZipContent \<Rightarrow> readResult" where
  "readResultJson JSON_parse content =
     (case zc_originalFile content of
        None \<Rightarrow> Skipped
      | Some file \<Rightarrow>
          if zc_resultJsonPath content = [] then Skipped
          else (case file_zip file of
                  None \<Rightarrow> Failed ZipLoadError
                | Some originalZip \<Rightarrow>
                    (case zip_file originalZip (zc_resultJsonPath content) of
                       None \<Rightarrow> Skipped
                     | Some resultJsonEntry \<Rightarrow>
                         (case JSON_parse (e_data resultJsonEntry) of
                            None \<Rightarrow> Failed JsonParseError
                          | Some resultData \<Rightarrow> Parsed resultData))))"

record parseState =
  resultJsons :: "resultData list"
  firstChatId :: "int option"
  chatName :: "string option"
  chatType :: "string option"
  totalInputMessages :: int

definition initState :: parseState where
  "initState = \<lparr>resultJsons = [], firstChatId = None, chatName = None, chatType = None,
                totalInputMessages = 0\<rparr>"

definition countMessages :: "resultData \<Rightarrow> int" where
  "countMessages resultData =
     (case r_messages resultData of None \<Rightarrow> 0 | Some ms \<Rightarrow> int (length ms))"

fun parseLoop :: "(string \<Rightarrow> resultData option) \<Rightarrow> ZipContent list \<Rightarrow> parseState
    \<Rightarrow> error + parseState" where
  "parseLoop JSON_parse [] st = Inr st"
| "parseLoop JSON_parse (content # contents) st =
     (case readResultJson JSON_parse content of
        Skipped \<Rightarrow> parseLoop JSON_parse contents st
      | Failed e \<Rightarrow> Inl (ErrorProcessing (zc_name content) e)
      | Parsed resultData \<Rightarrow>
          (let st1 = st\<lparr>totalInputMessages := totalInputMessages st + countMessages resultData\<rparr>
           in case firstChatId st1 of
                None \<Rightarrow>
                  parseLoop JSON_parse contents
                    (st1\<lparr>firstChatId := Some (r_id resultData),
                         chatName := Some (r_name resultData),
                         chatType := Some (r_type resultData),
                         resultJsons := resultJsons st1 @ [resultData]\<rparr>)
              | Some first \<Rightarrow>
                  if first \<noteq> r_id resultData
                  then Inl (ErrorProcessing (zc_name content)
                              (ChatIdMismatch first (r_id resultData)))
                  else parseLoop JSON_parse contents
                         (st1\<lparr>resultJsons := resultJsons st1 @ [resultData]\<rparr>)))"

text \<open>The body of the inner loop: one message against the map of kept messages.\<close>

definition dedupStep :: "(int \<times> TelegramMessage) list \<Rightarrow> TelegramMessage
    \<Rightarrow> (int \<times> TelegramMessage) list" where
  "dedupStep messagesById message =
     (let messageId = m_id message in
      if \<not> Map_has messagesById messageId \<or>
         (truthy (m_edited message) \<and>
          \<not> truthy (case Map_get messagesById messageId of
                       None \<Rightarrow> None | Some kept \<Rightarrow> m_edited kept))
      then Map_set messageId message messagesById
      else messagesById)"

definition dedupLog :: "(int \<times> TelegramMessage) list \<Rightarrow> resultData
    \<Rightarrow> (int \<times> TelegramMessage) list" where
  "dedupLog messagesById resultJson =
     (case r_messages resultJson of
        None \<Rightarrow> messagesById
      | Some ms \<Rightarrow> foldl dedupStep messagesById ms)"

definition dedupAll :: "resultData list \<Rightarrow> (int \<times> TelegramMessage) list" where
  "dedupAll rjs = foldl dedupLog [] rjs"

definition byId :: "TelegramMessage \<Rightarrow> TelegramMessage \<Rightarrow> int" where
  "byId a b = m_id a - m_id b"

definition combineResultJsonWithStats ::
    "(string \<Rightarrow> resultData option) \<Rightarrow> ZipContent list \<Rightarrow> error + combineStats" where
  "combineResultJsonWithStats JSON_parse contents =
     (if contents = [] then Inl NoValidExports
      else case parseLoop JSON_parse contents initState of
             Inl e \<Rightarrow> Inl e
           | Inr st \<Rightarrow>
               if resultJsons st = [] then Inl NoValidResultJson
               else
                 (let messages = js_sort byId (Map_values (dedupAll (resultJsons st)));
                      combined = \<lparr>cr_name = chatName st, cr_type = chatType st,
                                  cr_id = firstChatId st, cr_messages = messages\<rparr>;
                      uniqueMessageCount = int (length messages)
                  in Inr \<lparr>buffer = combined,
                          totalMessages = uniqueMessageCount,
                          duplicateMessages =
                            max 0 (totalInputMessages st - uniqueMessageCount)\<rparr>))"

section \<open>Inspecting one archive: \<open>unzipFile\<close>\<close>

text \<open>\<open>String.prototype.split("/")\<close> and \<open>Array.prototype.join("/")\<close>.\<close>

fun js_split :: "string \<Rightarrow> string list" where
  "js_split [] = [[]]"
| "js_split (c # cs) =
     (if c = CHR ''/'' then [] # js_split cs
      else (case js_split cs of [] \<Rightarrow> [[c]] | part # parts \<Rightarrow> (c # part) # parts))"

fun js_join :: "string list \<Rightarrow> string" where
  "js_join [] = []"
| "js_join [x] = x"
| "js_join (x # y # ys) = x @ ''/'' @ js_join (y # ys)"

text \<open>The filter at the head of each of the three passes of \<open>unzipFile\<close>.\<close>

definition skipEntry :: "string \<Rightarrow> bool" where
  "skipEntry relativePath \<longleftrightarrow>
     prefix ''.'' relativePath \<or> prefix ''__MACOSX'' relativePath \<or>
     sublist ''/__MACOSX/'' relativePath"

definition isResultJson :: "string \<Rightarrow> bool" where
  "isResultJson relativePath \<longleftrightarrow>
     relativePath = ''result.json'' \<or> suffix ''/result.json'' relativePath"

record locateState =
  hasResultsJson :: bool
  resultJsonPath :: string
  rootPrefix :: string

text \<open>First pass: the callback of \<open>content.forEach\<close> that looks for \<open>result.json\<close>.\<close>

definition locateStep :: "locateState \<Rightarrow> JSZipObject \<Rightarrow> locateState" where
  "locateStep st zipEntry =
     (let relativePath = e_name zipEntry in
      if skipEntry relativePath then st
      else if \<not> e_dir zipEntry \<and> isResultJson relativePath
      then st\<lparr>hasResultsJson := True,
              resultJsonPath := relativePath,
              rootPrefix :=
                (if relativePath \<noteq> ''result.json''
                 then js_join (butlast (js_split relativePath)) @ ''/''
                 else rootPrefix st)\<rparr>
      else st)"

definition locate :: "JSZipObject list \<Rightarrow> locateState" where
  "locate content =
     foldl locateStep \<lparr>hasResultsJson = False, resultJsonPath = [], rootPrefix = []\<rparr> content"

text \<open>Second pass. \<open>folderContents\<close> is an object used as a dictionary from a top-level
  folder to the paths under it; folder names that are inherited properties of every
  JavaScript object (such as \<open>constructor\<close>) are outside this model.\<close>

type_synonym collectState = "string list \<times> (string \<times> string list) list"

definition trackFile :: "string \<Rightarrow> collectState \<Rightarrow> collectState" where
  "trackFile path st =
     (case st of (allFiles, folderContents) \<Rightarrow>
        (allFiles @ [path],
         if CHR ''/'' \<in> set path
         then (let folder = hd (js_split path);
                   old = (case Map_get folderContents folder of None \<Rightarrow> [] | Some ps \<Rightarrow> ps)
               in Map_set folder (old @ [path]) folderContents)
         else folderContents))"

definition collectStep :: "string \<Rightarrow> collectState \<Rightarrow> JSZipObject \<Rightarrow> collectState" where
  "collectStep rootPfx st zipEntry =
     (let relativePath = e_name zipEntry in
      if skipEntry relativePath then st
      else if rootPfx \<noteq> [] then
        (if \<not> prefix rootPfx relativePath then st
         else (let adjustedPath = drop (length rootPfx) relativePath in
               if \<not> e_dir zipEntry \<and> adjustedPath \<noteq> [] then trackFile adjustedPath st
               else st))
      else if \<not> e_dir zipEntry then trackFile relativePath st
      else st)"

text \<open>Third pass: \<open>processFilePath\<close> and the loop that calls it.\<close>

type_synonym summaryState = "FileItem list \<times> string list"

definition processFilePath :: "(string \<times> string list) list \<Rightarrow> string \<Rightarrow> JSZipObject
    \<Rightarrow> summaryState \<Rightarrow> summaryState" where
  "processFilePath folderContents filePath zipEntry st =
     (case st of (topLevelItems, processedItems) \<Rightarrow>
        (let pathParts = js_split filePath;
             topLevel = hd pathParts
         in if topLevel \<in> set processedItems \<or> topLevel = [] then st
            else if length pathParts = 1 \<and> \<not> e_dir zipEntry
            then (topLevelItems @
                    [\<lparr>fi_name = topLevel, fi_path = filePath,
                      fi_size = (case e_comment zipEntry of None \<Rightarrow> 0 | Some c \<Rightarrow> length c),
                      fi_isDirectory = False, fi_fileCount = None\<rparr>],
                  Set_add topLevel processedItems)
            else (let filesInFolder =
                        (case Map_get folderContents topLevel of None \<Rightarrow> [] | Some ps \<Rightarrow> ps)
                  in (topLevelItems @
                        [\<lparr>fi_name = topLevel, fi_path = topLevel @ ''/'', fi_size = 0,
                          fi_isDirectory = True,
                          fi_fileCount = Some (length filesInFolder)\<rparr>],
                      Set_add topLevel processedItems))))"

definition summaryStep :: "string \<Rightarrow> (string \<times> string list) list \<Rightarrow> summaryState
    \<Rightarrow> JSZipObject \<Rightarrow> summaryState" where
  "summaryStep rootPfx folderContents st zipEntry =
     (let relativePath = e_name zipEntry in
      if skipEntry relativePath then st
      else if rootPfx \<noteq> [] then
        (if prefix rootPfx relativePath
         then (let adjustedPath = drop (length rootPfx) relativePath in
               if adjustedPath \<noteq> [] then processFilePath folderContents adjustedPath zipEntry st
               else st)
         else st)
      else processFilePath folderContents relativePath zipEntry st)"

text \<open>The comparator handed to \<open>topLevelItems.sort\<close>. \<open>localeCompare\<close> is the host's
  locale-sensitive string comparison, which the repository does not define: it is a
  parameter.\<close>

definition itemCompare :: "(string \<Rightarrow> string \<Rightarrow> int) \<Rightarrow> FileItem \<Rightarrow> FileItem \<Rightarrow> int" where
  "itemCompare localeCompare a b =
     (if fi_isDirectory a \<and> \<not> fi_isDirectory b then - 1
      else if \<not> fi_isDirectory a \<and> fi_isDirectory b then 1
      else localeCompare (fi_name a) (fi_name b))"

definition unzipFile :: "(string \<Rightarrow> string \<Rightarrow> int) \<Rightarrow> string \<Rightarrow> File \<Rightarrow> error + ZipContent" where
  "unzipFile localeCompare uuid file =
     (case file_zip file of
        None \<Rightarrow> Inl ZipLoadError
      | Some content \<Rightarrow>
          (let found = locate content;
               rootPfx = rootPrefix found;
               collected = foldl (collectStep rootPfx) ([], []) content;
               allFiles = fst collected;
               folderContents = snd collected;
               topLevelItems = fst (foldl (summaryStep rootPfx folderContents) ([], []) content)
           in Inr \<lparr>zc_id = uuid,
                   zc_name = file_name file,
                   zc_files = allFiles,
                   zc_topLevelItems = js_sort (itemCompare localeCompare) topLevelItems,
                   zc_hasResultsJson = hasResultsJson found,
                   zc_rootPrefix = rootPfx,
                   zc_resultJsonPath = resultJsonPath found,
                   zc_error =
                     (if \<not> hasResultsJson found
                      then Some ''No result.json found in the archive. This may not be a valid Telegram export.''
                      else None),
                   zc_originalFile = Some file\<rparr>))"

section \<open>Packaging: \<open>combineZipContents\<close>\<close>

text \<open>\<open>getTimestampFromPath\<close> reads the clock and draws a random number in \<open>[0, 1)\<close>;
  both readings are arguments here.\<close>

definition getTimestampFromPath :: "int \<Rightarrow> real \<Rightarrow> string \<Rightarrow> int" where
  "getTimestampFromPath now random path =
     (let pathFactor = int (length path) * 100
      in now - \<lfloor>random * 10000000\<rfloor> + pathFactor)"

text \<open>The host as the packager sees it: the \<open>n\<close>-th call of \<open>getTimestampFromPath\<close> reads
  \<open>Date.now()\<close> and \<open>Math.random()\<close> as \<open>host n\<close>.\<close>

type_synonym host = "nat \<Rightarrow> int \<times> real"

definition admissible :: "host \<Rightarrow> bool" where
  "admissible h \<longleftrightarrow> (\<forall>n. 0 \<le> snd (h n) \<and> snd (h n) < 1)"

text \<open>What the output archive holds under a path: bytes copied from an input archive,
  or the serialised merged log.\<close>

datatype fileData = Bytes string | MergedLog combinedResult

record packState =
  combinedZip :: "(string \<times> fileData) list"
  fileMap :: "(string \<times> int) list"
  folders :: "string list"
  totalFiles :: nat
  calls :: nat

text \<open>The body of the loop over the entries of one archive.\<close>

definition fileStep :: "host \<Rightarrow> string \<Rightarrow> packState \<Rightarrow> JSZipObject \<Rightarrow> packState" where
  "fileStep h rootPfx st zipEntry =
     (let filePath = e_name zipEntry in
      if e_dir zipEntry \<or> (rootPfx \<noteq> [] \<and> \<not> prefix rootPfx filePath) \<or>
         prefix ''.'' filePath \<or> prefix ''__MACOSX/'' filePath \<or>
         sublist ''/__MACOSX/'' filePath
      then st
      else
        (let adjustedPath = (if rootPfx \<noteq> [] then drop (length rootPfx) filePath else filePath) in
         if adjustedPath = [] then st
         else if adjustedPath = ''result.json'' then st
         else
           (let pathParts = js_split adjustedPath;
                st1 = (if length pathParts > 1
                       then st\<lparr>folders := Set_add (hd pathParts) (folders st)\<rparr> else st);
                currentTimestamp =
                  getTimestampFromPath (fst (h (calls st1))) (snd (h (calls st1))) adjustedPath;
                st2 = st1\<lparr>calls := Suc (calls st1)\<rparr>;
                existing = Map_get (fileMap st2) adjustedPath
            in if existing = None \<or> currentTimestamp > the existing
               then st2\<lparr>fileMap := Map_set adjustedPath currentTimestamp (fileMap st2),
                        combinedZip :=
                          Map_set adjustedPath (Bytes (e_data zipEntry)) (combinedZip st2),
                        totalFiles := totalFiles st2 + 1\<rparr>
               else st2)))"

text \<open>The loop over the valid archives; a missing original file or an unreadable
  archive throws.\<close>

fun packLoop :: "host \<Rightarrow> ZipContent list \<Rightarrow> packState \<Rightarrow> error + packState" where
  "packLoop h [] st = Inr st"
| "packLoop h (content # contents) st =
     (case zc_originalFile content of
        None \<Rightarrow> Inl (OriginalFileMissing (zc_name content))
      | Some file \<Rightarrow>
          (case file_zip file of
             None \<Rightarrow> Inl ZipLoadError
           | Some originalZip \<Rightarrow>
               packLoop h contents
                 (foldl (fileStep h (zc_rootPrefix content)) st originalZip)))"

record combinedOutput =
  res_blob :: "(string \<times> fileData) list"
  res_totalMessages :: int
  res_duplicateMessages :: int
  res_folders :: "string list"
  res_totalFiles :: nat

definition combineZipContents ::
    "(string \<Rightarrow> resultData option) \<Rightarrow> host \<Rightarrow> ZipContent list \<Rightarrow> error + combinedOutput" where
  "combineZipContents JSON_parse h contents =
     (let validContents = filter (\<lambda>content. \<not> truthy (zc_error content)) contents in
      if validContents = [] then Inl NoValidExports
      else
        (case packLoop h validContents
                \<lparr>combinedZip = [], fileMap = [], folders = [], totalFiles = 0, calls = 0\<rparr> of
           Inl e \<Rightarrow> Inl e
         | Inr st \<Rightarrow>
             (case combineResultJsonWithStats JSON_parse validContents of
                Inl e \<Rightarrow> Inl (ErrorCombining e)
              | Inr combinedResultJsonData \<Rightarrow>
                  Inr \<lparr>res_blob =
                         Map_set ''result.json'' (MergedLog (buffer combinedResultJsonData))
                           (combinedZip st),
                       res_totalMessages = totalMessages combinedResultJsonData,
                       res_duplicateMessages = duplicateMessages combinedResultJsonData,
                       res_folders = folders st,
                       res_totalFiles = totalFiles st\<rparr>)))"

section \<open>Notions used to state the properties\<close>

text \<open>A comparator is consistent when it is total and transitive as a "not after"
  relation; \<open>Array.prototype.sort\<close> promises a sorted result only for such comparators.\<close>

definition comparator :: "('a \<Rightarrow> 'a \<Rightarrow> int) \<Rightarrow> bool" where
  "comparator cmp \<longleftrightarrow>
     (\<forall>a b. 0 < cmp a b \<longrightarrow> cmp b a \<le> 0) \<and>
     (\<forall>a b c. cmp a b \<le> 0 \<longrightarrow> cmp b c \<le> 0 \<longrightarrow> cmp a c \<le> 0)"

definition compareBy :: "('a \<Rightarrow> 'k::linorder) \<Rightarrow> 'a \<Rightarrow> 'a \<Rightarrow> int" where
  "compareBy key a b = (if key a < key b then - 1 else if key a = key b then 0 else 1)"

text \<open>Comparison of strings by character code, the case-sensitive lexicographic order.\<close>

definition codeUnitCompare :: "string \<Rightarrow> string \<Rightarrow> int" where
  "codeUnitCompare = compareBy (\<lambda>s. s)"

text \<open>A locale-sensitive comparison in the manner of the hosts' default collation on
  ASCII names: alphabetical regardless of case first, and lower case before upper case
  between names that differ in case only.\<close>

definition toLower :: "char \<Rightarrow> char" where
  "toLower c = (if CHR ''A'' \<le> c \<and> c \<le> CHR ''Z'' then char_of (of_char c + (32::nat)) else c)"

definition swapCase :: "char \<Rightarrow> char" where
  "swapCase c =
     (if CHR ''A'' \<le> c \<and> c \<le> CHR ''Z'' then char_of (of_char c + (32::nat))
      else if CHR ''a'' \<le> c \<and> c \<le> CHR ''z'' then char_of (of_char c - (32::nat))
      else c)"

definition collationCompare :: "string \<Rightarrow> string \<Rightarrow> int" where
  "collationCompare = compareBy (\<lambda>s. (map toLower s, map swapCase s))"

text \<open>The first element of a list that satisfies a predicate.\<close>

definition firstWith :: "('a \<Rightarrow> bool) \<Rightarrow> 'a list \<Rightarrow> 'a option" where
  "firstWith P xs = (case filter P xs of [] \<Rightarrow> None | x # _ \<Rightarrow> Some x)"

text \<open>The record the dedup policy keeps for an id, read off the sequence of all messages
  in processing order: the first one that carries an edit marker if there is one, and the
  first one otherwise.\<close>

definition spec_keptFor :: "int \<Rightarrow> TelegramMessage list \<Rightarrow> TelegramMessage option" where
  "spec_keptFor k ms =
     (case firstWith (\<lambda>m. m_id m = k \<and> truthy (m_edited m)) ms of
        Some e \<Rightarrow> Some e
      | None \<Rightarrow> firstWith (\<lambda>m. m_id m = k) ms)"

definition allMessages :: "resultData list \<Rightarrow> TelegramMessage list" where
  "allMessages rjs = concat (map (\<lambda>r. case r_messages r of None \<Rightarrow> [] | Some ms \<Rightarrow> ms) rjs)"

definition wellKeyed :: "(int \<times> TelegramMessage) list \<Rightarrow> bool" where
  "wellKeyed m \<longleftrightarrow> distinct (map fst m) \<and> (\<forall>(k, v) \<in> set m. m_id v = k)"

text \<open>The logs the merge reads, in the order the archives were supplied, and the sum of
  their message counts.\<close>

definition parsedLogs :: "(string \<Rightarrow> resultData option) \<Rightarrow> ZipContent list \<Rightarrow> resultData list" where
  "parsedLogs JSON_parse contents =
     concat (map (\<lambda>content. case readResultJson JSON_parse content of
                              Parsed r \<Rightarrow> [r] | _ \<Rightarrow> []) contents)"

definition spec_totalInputMessages :: "(string \<Rightarrow> resultData option) \<Rightarrow> ZipContent list \<Rightarrow> int" where
  "spec_totalInputMessages JSON_parse contents =
     sum_list (map countMessages (parsedLogs JSON_parse contents))"

text \<open>No archive of the list makes the \<open>try\<close> block of the first loop throw while its log
  is read.\<close>

definition noneFailed :: "(string \<Rightarrow> resultData option) \<Rightarrow> ZipContent list \<Rightarrow> bool" where
  "noneFailed JSON_parse contents \<longleftrightarrow>
     list_all (\<lambda>content. case readResultJson JSON_parse content of
                          Failed e \<Rightarrow> False | _ \<Rightarrow> True) contents"

text \<open>The archives are readable and their logs all carry the chat id of the first log.\<close>

definition sameChat :: "(string \<Rightarrow> resultData option) \<Rightarrow> ZipContent list \<Rightarrow> bool" where
  "sameChat P cs \<longleftrightarrow>
     noneFailed P cs \<and> parsedLogs P cs \<noteq> [] \<and>
     list_all (\<lambda>x. r_id x = r_id (hd (parsedLogs P cs))) (parsedLogs P cs)"




text \<open>The paths written to the output archive as ordinary files.\<close>

definition ordinaryFiles :: "(string \<times> fileData) list \<Rightarrow> string list" where
  "ordinaryFiles blob = map fst (filter (\<lambda>(p, d). p \<noteq> ''result.json'') blob)"

text \<open>The root-relative paths collected under a top-level folder, the paths a folder has
  in the dictionary of the second pass, and the size the summary reports for an entry.\<close>

definition underFolder :: "string \<Rightarrow> string list \<Rightarrow> string list" where
  "underFolder folder files =
     filter (\<lambda>p. CHR ''/'' \<in> set p \<and> hd (js_split p) = folder) files"

definition pathsOf :: "(string \<times> string list) list \<Rightarrow> string \<Rightarrow> string list" where
  "pathsOf folderContents folder =
     (case Map_get folderContents folder of None \<Rightarrow> [] | Some ps \<Rightarrow> ps)"

definition reportedSize :: "JSZipObject \<Rightarrow> nat" where
  "reportedSize e = (case e_comment e of None \<Rightarrow> 0 | Some c \<Rightarrow> length c)"

definition itemOk :: "(string \<times> string list) list \<Rightarrow> JSZipObject list \<Rightarrow> string
    \<Rightarrow> FileItem \<Rightarrow> bool" where
  "itemOk folderContents content rootPfx item \<longleftrightarrow>
     (if fi_isDirectory item
      then fi_size item = 0 \<and>
           fi_fileCount item = Some (length (pathsOf folderContents (fi_name item)))
      else fi_fileCount item = None \<and>
           (\<exists>e \<in> set content. \<not> e_dir e \<and> e_name e = rootPfx @ fi_name item \<and>
              fi_size item = reportedSize e))"

text \<open>The invariant of the packaging loop: the output holds each path once, never the
  message log, and no more paths than the counter says.\<close>

definition packInv :: "packState \<Rightarrow> bool" where
  "packInv st \<longleftrightarrow>
     distinct (map fst (combinedZip st)) \<and>
     ''result.json'' \<notin> fst ` set (combinedZip st) \<and>
     length (combinedZip st) \<le> totalFiles st"

section \<open>Example archives\<close>

definition msg1 :: TelegramMessage where
  "msg1 = \<lparr>m_id = 1, m_edited = None, m_rest = ''hello''\<rparr>"

definition msg2 :: TelegramMessage where
  "msg2 = \<lparr>m_id = 2, m_edited = None, m_rest = ''helo''\<rparr>"

definition msg2e :: TelegramMessage where
  "msg2e = \<lparr>m_id = 2, m_edited = Some ''2024-03-01T10:00:00'', m_rest = ''hello again''\<rparr>"

definition msg3 :: TelegramMessage where
  "msg3 = \<lparr>m_id = 3, m_edited = None, m_rest = ''bye''\<rparr>"

definition logA :: resultData where
  "logA = \<lparr>r_id = 100, r_name = ''Family'', r_type = ''private_group'',
           r_messages = Some [msg1, msg2e]\<rparr>"

definition logB :: resultData where
  "logB = \<lparr>r_id = 100, r_name = ''Family'', r_type = ''private_group'',
           r_messages = Some [msg2, msg3]\<rparr>"

definition logC :: resultData where
  "logC = \<lparr>r_id = 200, r_name = ''Work'', r_type = ''private_group'',
           r_messages = Some [msg3]\<rparr>"

text \<open>A parser that knows three log texts and rejects every other text.\<close>

definition exampleParse :: "string \<Rightarrow> resultData option" where
  "exampleParse text =
     (if text = ''A'' then Some logA
      else if text = ''B'' then Some logB
      else if text = ''C'' then Some logC
      else None)"

definition fileEntry :: "string \<Rightarrow> string \<Rightarrow> JSZipObject" where
  "fileEntry path bytes = \<lparr>e_name = path, e_dir = False, e_comment = None, e_data = bytes\<rparr>"

definition dirEntry :: "string \<Rightarrow> JSZipObject" where
  "dirEntry path = \<lparr>e_name = path, e_dir = True, e_comment = None, e_data = []\<rparr>"

definition fileA :: File where
  "fileA = \<lparr>file_name = ''a.zip'',
            file_zip = Some [fileEntry ''result.json'' ''A'',
                             fileEntry ''photos/a.jpg'' ''old'']\<rparr>"

definition entriesB :: "JSZipObject list" where
  "entriesB = [dirEntry ''export/chat/'',
               fileEntry ''export/chat/result.json'' ''B'',
               fileEntry ''export/chat/photos/a.jpg'' ''new'',
               fileEntry ''export/readme.txt'' ''x'']"

definition fileB :: File where
  "fileB = \<lparr>file_name = ''b.zip'', file_zip = Some entriesB\<rparr>"


definition archiveA :: ZipContent where
  "archiveA =
     \<lparr>zc_id = ''id-a'', zc_name = ''a.zip'',
      zc_files = [''result.json'', ''photos/a.jpg''],
      zc_topLevelItems =
        [\<lparr>fi_name = ''photos'', fi_path = ''photos/'', fi_size = 0, fi_isDirectory = True,
          fi_fileCount = Some 1\<rparr>,
         \<lparr>fi_name = ''result.json'', fi_path = ''result.json'', fi_size = 0,
          fi_isDirectory = False, fi_fileCount = None\<rparr>],
      zc_hasResultsJson = True, zc_rootPrefix = [], zc_resultJsonPath = ''result.json'',
      zc_error = None, zc_originalFile = Some fileA\<rparr>"

definition archiveB :: ZipContent where
  "archiveB =
     \<lparr>zc_id = ''id-b'', zc_name = ''b.zip'',
      zc_files = [''result.json'', ''photos/a.jpg''],
      zc_topLevelItems =
        [\<lparr>fi_name = ''photos'', fi_path = ''photos/'', fi_size = 0, fi_isDirectory = True,
          fi_fileCount = Some 1\<rparr>,
         \<lparr>fi_name = ''result.json'', fi_path = ''result.json'', fi_size = 0,
          fi_isDirectory = False, fi_fileCount = None\<rparr>],
      zc_hasResultsJson = True, zc_rootPrefix = ''export/chat/'',
      zc_resultJsonPath = ''export/chat/result.json'',
      zc_error = None, zc_originalFile = Some fileB\<rparr>"


text \<open>The merged log of archives A and B.\<close>

definition mergedAB :: combinedResult where
  "mergedAB = \<lparr>cr_name = Some ''Family'', cr_type = Some ''private_group'',
               cr_id = Some 100, cr_messages = [msg1, msg2e, msg3]\<rparr>"

text \<open>Two hosts with the same clock: under the first the earlier call draws the smaller
  number, under the second the later call does.\<close>

definition hostFirstWins :: host where
  "hostFirstWins n = (1700000000000, if n = 0 then 0 else 1 / 2)"

definition hostLaterWins :: host where
  "hostLaterWins n = (1700000000000, if n = 0 then 1 / 2 else 0)"



text \<open>An archive whose top-level names differ in case, and one whose file carries a
  comment.\<close>

definition mixedCaseEntries :: "JSZipObject list" where
  "mixedCaseEntries = [fileEntry ''result.json'' ''A'',
                       fileEntry ''Zebra.txt'' ''z'',
                       fileEntry ''apple.txt'' ''a'',
                       fileEntry ''media/b.jpg'' ''b'']"

definition fileMixedCase :: File where
  "fileMixedCase = \<lparr>file_name = ''m.zip'', file_zip = Some mixedCaseEntries\<rparr>"

text \<open>Its top-level items in the order the third pass emits them.\<close>

definition mixedItems :: "FileItem list" where
  "mixedItems =
     [\<lparr>fi_name = ''result.json'', fi_path = ''result.json'', fi_size = 0,
       fi_isDirectory = False, fi_fileCount = None\<rparr>,
      \<lparr>fi_name = ''Zebra.txt'', fi_path = ''Zebra.txt'', fi_size = 0,
       fi_isDirectory = False, fi_fileCount = None\<rparr>,
      \<lparr>fi_name = ''apple.txt'', fi_path = ''apple.txt'', fi_size = 0,
       fi_isDirectory = False, fi_fileCount = None\<rparr>,
      \<lparr>fi_name = ''media'', fi_path = ''media/'', fi_size = 0,
       fi_isDirectory = True, fi_fileCount = Some 1\<rparr>]"

definition notesEntry :: JSZipObject where
  "notesEntry = \<lparr>e_name = ''notes.txt'', e_dir = False, e_comment = Some ''hi'',
                 e_data = ''hello''\<rparr>"

definition commentedEntries :: "JSZipObject list" where
  "commentedEntries = [fileEntry ''result.json'' ''A'', notesEntry]"

definition fileCommented :: File where
  "fileCommented = \<lparr>file_name = ''n.zip'', file_zip = Some commentedEntries\<rparr>"

section \<open>Maps and sorting\<close>

lemma Map_get_set: "Map_get (Map_set k v m) k' = (if k' = k then Some v else Map_get m k')"
  by (induction m) auto

lemma keys_Map_set: "fst ` set (Map_set k v m) = insert k (fst ` set m)"
  by (induction m) force+

lemma distinct_Map_set: "distinct (map fst m) \<Longrightarrow> distinct (map fst (Map_set k v m))"
proof (induction m)
  case Nil
  then show ?case by simp
next
  case (Cons p m)
  obtain k' v' where p: "p = (k', v')" by (cases p)
  from Cons have "distinct (map fst (Map_set k v m))" by simp
  moreover have "k' \<noteq> k \<Longrightarrow> k' \<notin> fst ` set (Map_set k v m)"
    using Cons.prems by (simp add: keys_Map_set p)
  ultimately show ?case using Cons.prems by (auto simp: p)
qed

lemma set_Map_set_subset: "set (Map_set k v m) \<subseteq> insert (k, v) (set m)"
  by (induction m) (auto split: if_splits)

lemma length_Map_set:
  "length (Map_set k v m) = (if k \<in> fst ` set m then length m else Suc (length m))"
  by (induction m) force+

lemma Map_get_None_iff: "Map_get m k = None \<longleftrightarrow> k \<notin> fst ` set m"
  by (induction m) force+

lemma Map_get_Some_iff:
  "distinct (map fst m) \<Longrightarrow> Map_get m k = Some v \<longleftrightarrow> (k, v) \<in> set m"
  by (induction m) force+

lemma mset_sort_insert: "mset (sort_insert cmp x ys) = add_mset x (mset ys)"
  by (induction ys) auto

lemma mset_js_sort: "mset (js_sort cmp xs) = mset xs"
  by (induction xs) (auto simp: js_sort_def mset_sort_insert)

lemma set_js_sort: "set (js_sort cmp xs) = set xs"
  using mset_js_sort [of cmp xs] by (metis set_mset_mset)

lemma length_js_sort: "length (js_sort cmp xs) = length xs"
  using mset_js_sort [of cmp xs] by (metis size_mset)

lemma distinct_map_js_sort: "distinct (map f (js_sort cmp xs)) = distinct (map f xs)"
proof -
  have "mset (map f (js_sort cmp xs)) = mset (map f xs)"
    by (simp add: mset_js_sort)
  then show ?thesis by (rule mset_eq_imp_distinct_iff)
qed

lemma sorted_sort_insert:
  assumes "comparator cmp" and "sorted_wrt (\<lambda>a b. cmp a b \<le> 0) ys"
  shows "sorted_wrt (\<lambda>a b. cmp a b \<le> 0) (sort_insert cmp x ys)"
  using assms(2)
proof (induction ys)
  case Nil
  show ?case by simp
next
  case (Cons y ys)
  show ?case
  proof (cases "cmp x y \<le> 0")
    case True
    have "\<forall>z \<in> set ys. cmp x z \<le> 0"
      using Cons.prems True assms(1) unfolding comparator_def by (metis sorted_wrt.simps(2))
    with True Cons.prems show ?thesis by simp
  next
    case False
    then have yx: "cmp y x \<le> 0"
      using assms(1) unfolding comparator_def by (simp add: not_le)
    have "set (sort_insert cmp x ys) = insert x (set ys)"
      using mset_sort_insert [of cmp x ys] by (metis set_mset_mset set_mset_add_mset_insert)
    with False yx Cons show ?thesis by auto
  qed
qed

lemma sorted_js_sort:
  "comparator cmp \<Longrightarrow> sorted_wrt (\<lambda>a b. cmp a b \<le> 0) (js_sort cmp xs)"
  by (induction xs) (simp_all add: js_sort_def sorted_sort_insert)

lemma comparator_byId: "comparator byId"
  unfolding comparator_def byId_def by auto

lemma sorted_js_sort_byId: "sorted (map m_id (js_sort byId xs))"
  using sorted_js_sort [OF comparator_byId, of xs]
  by (simp add: sorted_map byId_def)

section \<open>The dedup loop\<close>

lemma dedupStep_get:
  "Map_get (dedupStep kept message) k =
     (if k = m_id message
      then Some (case Map_get kept k of
                   None \<Rightarrow> message
                 | Some old \<Rightarrow> if truthy (m_edited message) \<and> \<not> truthy (m_edited old)
                               then message else old)
      else Map_get kept k)"
  by (auto simp: dedupStep_def Let_def Map_has_def Map_get_set split: option.splits)

lemma foldl_dedupStep_get:
  "Map_get (foldl dedupStep kept ms) k =
     (case Map_get kept k of
        None \<Rightarrow> spec_keptFor k ms
      | Some old \<Rightarrow> if truthy (m_edited old) then Some old
                    else (case firstWith (\<lambda>m. m_id m = k \<and> truthy (m_edited m)) ms of
                            Some e \<Rightarrow> Some e | None \<Rightarrow> Some old))"
proof (induction ms arbitrary: kept)
  case Nil
  show ?case by (simp add: spec_keptFor_def firstWith_def split: option.splits)
next
  case (Cons m ms)
  show ?case
    unfolding foldl_Cons Cons.IH dedupStep_get
    by (auto simp: spec_keptFor_def firstWith_def split: option.splits list.splits)
qed

lemma foldl_dedupLog_eq:
  "foldl dedupLog kept rjs = foldl dedupStep kept (allMessages rjs)"
  by (induction rjs arbitrary: kept)
     (auto simp: allMessages_def dedupLog_def split: option.splits)

lemma dedupAll_get: "Map_get (dedupAll rjs) k = spec_keptFor k (allMessages rjs)"
  by (simp add: dedupAll_def foldl_dedupLog_eq foldl_dedupStep_get)

lemma wellKeyed_dedupStep: "wellKeyed m \<Longrightarrow> wellKeyed (dedupStep m x)"
  unfolding wellKeyed_def dedupStep_def Let_def
  using set_Map_set_subset [of "m_id x" x m]
  by (auto simp: distinct_Map_set)

lemma wellKeyed_foldl: "wellKeyed m \<Longrightarrow> wellKeyed (foldl dedupStep m xs)"
  by (induction xs arbitrary: m) (simp_all add: wellKeyed_dedupStep)

lemma wellKeyed_dedupAll: "wellKeyed (dedupAll rjs)"
proof -
  have "wellKeyed ([] :: (int \<times> TelegramMessage) list)" by (simp add: wellKeyed_def)
  then show ?thesis by (simp add: dedupAll_def foldl_dedupLog_eq wellKeyed_foldl)
qed

lemma wellKeyed_ids: "wellKeyed m \<Longrightarrow> map m_id (Map_values m) = map fst m"
  unfolding wellKeyed_def Map_values_def by (induction m) auto

lemma distinct_ids_dedupAll: "distinct (map m_id (Map_values (dedupAll rjs)))"
  using wellKeyed_dedupAll [of rjs] wellKeyed_ids [of "dedupAll rjs"]
  by (simp add: wellKeyed_def)

lemma keys_foldl_dedupStep:
  "fst ` set (foldl dedupStep m xs) = fst ` set m \<union> m_id ` set xs"
proof (induction xs arbitrary: m)
  case Nil
  show ?case by simp
next
  case (Cons x xs)
  have "fst ` set (dedupStep m x) = insert (m_id x) (fst ` set m)"
    by (auto simp: dedupStep_def Let_def Map_has_def Map_get_None_iff keys_Map_set)
  then show ?case by (simp add: Cons.IH)
qed

lemma keys_dedupAll: "fst ` set (dedupAll rjs) = m_id ` set (allMessages rjs)"
  by (simp add: dedupAll_def foldl_dedupLog_eq keys_foldl_dedupStep)

text \<open>The number of kept records is the number of distinct ids among all messages.\<close>

lemma length_dedupAll: "length (dedupAll rjs) = card (m_id ` set (allMessages rjs))"
proof -
  have "distinct (map fst (dedupAll rjs))"
    using wellKeyed_dedupAll [of rjs] by (simp add: wellKeyed_def)
  then have "card (set (map fst (dedupAll rjs))) = length (map fst (dedupAll rjs))"
    by (rule distinct_card)
  then show ?thesis by (simp add: keys_dedupAll)
qed

section \<open>The first loop of the merge\<close>

lemma parsedLogs_Cons:
  "parsedLogs P (c # cs) =
     (case readResultJson P c of Parsed r \<Rightarrow> [r] | _ \<Rightarrow> []) @ parsedLogs P cs"
  by (simp add: parsedLogs_def)

lemma parsedLogs_append: "parsedLogs P (xs @ ys) = parsedLogs P xs @ parsedLogs P ys"
  by (simp add: parsedLogs_def)

lemma spec_total_append:
  "spec_totalInputMessages P (xs @ ys) =
     spec_totalInputMessages P xs + spec_totalInputMessages P ys"
  by (simp add: spec_totalInputMessages_def parsedLogs_append)

lemma parseLoop_Inr:
  "parseLoop P cs st = Inr st' \<Longrightarrow>
     resultJsons st' = resultJsons st @ parsedLogs P cs \<and>
     totalInputMessages st' = totalInputMessages st + spec_totalInputMessages P cs"
proof (induction cs arbitrary: st)
  case Nil
  then show ?case by (simp add: parsedLogs_def spec_totalInputMessages_def)
next
  case (Cons c cs)
  show ?case
  proof (cases "readResultJson P c")
    case Skipped
    with Cons show ?thesis
      by (simp add: parsedLogs_Cons spec_totalInputMessages_def)
  next
    case (Failed e)
    with Cons.prems show ?thesis by simp
  next
    case (Parsed r)
    show ?thesis
    proof (cases "firstChatId st")
      case None
      with Parsed Cons.prems Cons.IH [of "st\<lparr>totalInputMessages := totalInputMessages st + countMessages r,
              firstChatId := Some (r_id r), chatName := Some (r_name r),
              chatType := Some (r_type r), resultJsons := resultJsons st @ [r]\<rparr>"]
      show ?thesis
        by (simp add: Let_def parsedLogs_Cons spec_totalInputMessages_def)
    next
      case (Some f)
      with Parsed Cons.prems Cons.IH [of "st\<lparr>totalInputMessages := totalInputMessages st + countMessages r,
              resultJsons := resultJsons st @ [r]\<rparr>"]
      show ?thesis
        by (simp add: Let_def parsedLogs_Cons spec_totalInputMessages_def split: if_splits)
    qed
  qed
qed

lemma combine_Inr:
  assumes "combineResultJsonWithStats P cs = Inr r"
  shows "cr_messages (buffer r) = js_sort byId (Map_values (dedupAll (parsedLogs P cs))) \<and>
         totalMessages r = int (length (cr_messages (buffer r))) \<and>
         duplicateMessages r = max 0 (spec_totalInputMessages P cs - totalMessages r)"
proof -
  from assms obtain st where st: "parseLoop P cs initState = Inr st"
    and r: "r = \<lparr>buffer = \<lparr>cr_name = chatName st, cr_type = chatType st,
                  cr_id = firstChatId st,
                  cr_messages = js_sort byId (Map_values (dedupAll (resultJsons st)))\<rparr>,
                totalMessages = int (length (js_sort byId (Map_values (dedupAll (resultJsons st))))),
                duplicateMessages = max 0 (totalInputMessages st -
                  int (length (js_sort byId (Map_values (dedupAll (resultJsons st))))))\<rparr>"
    unfolding combineResultJsonWithStats_def
    by (auto simp: Let_def split: if_splits sum.splits)
  from parseLoop_Inr [OF st] have "resultJsons st = parsedLogs P cs"
    and "totalInputMessages st = spec_totalInputMessages P cs"
    by (simp_all add: initState_def)
  with r show ?thesis by simp
qed

section \<open>Properties of the message merge\<close>

lemma kept_in_output:
  assumes "wellKeyed d"
  shows "m \<in> set (Map_values d) \<longleftrightarrow> Map_get d (m_id m) = Some m"
proof -
  from assms have dist: "distinct (map fst d)" and key: "\<And>k v. (k, v) \<in> set d \<Longrightarrow> m_id v = k"
    by (auto simp: wellKeyed_def)
  have "m \<in> set (Map_values d) \<longleftrightarrow> (\<exists>k. (k, m) \<in> set d)"
    by (force simp: Map_values_def)
  also have "\<dots> \<longleftrightarrow> (m_id m, m) \<in> set d"
    using key by blast
  also have "\<dots> \<longleftrightarrow> Map_get d (m_id m) = Some m"
    using Map_get_Some_iff [OF dist] by simp
  finally show ?thesis .
qed

lemma example_merge:
  "combineResultJsonWithStats exampleParse [archiveA, archiveB] =
     Inr \<lparr>buffer = mergedAB, totalMessages = 3, duplicateMessages = 1\<rparr>"
  by code_simp

lemma example_total: "spec_totalInputMessages exampleParse [archiveA, archiveB] = 4"
  by code_simp

text \<open>
  Claim C1. In the dedup across all archives, a message whose id is already in the map
  replaces the kept record only when it carries an edit marker (a non-empty \<open>edited\<close>
  field, which is what the code tests) and the kept record does not; otherwise the kept
  record stays, and other ids are untouched. Hence the record kept for an id at the end
  is the first one with an edit marker in processing order if there is one, else the
  first one, and these are the records of the merged log: an edited variant seen before
  an unedited one of the same id is retained.
\<close>

theorem dedup_edit_promotion:
  "Map_get (dedupStep kept message) (m_id message) =
     Some (case Map_get kept (m_id message) of
             None \<Rightarrow> message
           | Some old \<Rightarrow> if truthy (m_edited message) \<and> \<not> truthy (m_edited old)
                         then message else old)
   \<and> (k \<noteq> m_id message \<longrightarrow> Map_get (dedupStep kept message) k = Map_get kept k)
   \<and> Map_get (dedupAll rjs) k = spec_keptFor k (allMessages rjs)
   \<and> (combineResultJsonWithStats P cs = Inr r \<longrightarrow>
        (m \<in> set (cr_messages (buffer r)) \<longleftrightarrow>
         spec_keptFor (m_id m) (allMessages (parsedLogs P cs)) = Some m))"
proof -
  have "m \<in> set (cr_messages (buffer r)) \<longleftrightarrow>
        spec_keptFor (m_id m) (allMessages (parsedLogs P cs)) = Some m"
    if "combineResultJsonWithStats P cs = Inr r"
    using combine_Inr [OF that] kept_in_output [OF wellKeyed_dedupAll, of m "parsedLogs P cs"]
    by (simp add: set_js_sort dedupAll_get)
  then show ?thesis
    by (simp add: dedupStep_get dedupAll_get)
qed

theorem dedup_edit_promotion_witness:
  "Map_get (dedupStep [(2, msg2e)] msg2) 2 = Some msg2e
   \<and> Map_get (dedupStep [(2, msg2)] msg2e) 2 = Some msg2e
   \<and> Map_get (dedupStep [(2, msg2)] msg3) 2 = Some msg2
   \<and> Map_get (dedupAll [logA, logB]) 2 = Some msg2e
   \<and> Map_get (dedupAll [logB, logA]) 2 = Some msg2e
   \<and> msg2e \<in> set (cr_messages (buffer \<lparr>buffer = mergedAB, totalMessages = 3, duplicateMessages = 1\<rparr>))"
proof -
  have k1: "spec_keptFor 2 (allMessages [logA, logB]) = Some msg2e" by code_simp
  have k2: "spec_keptFor 2 (allMessages [logB, logA]) = Some msg2e" by code_simp
  have k3: "spec_keptFor (m_id msg2e) (allMessages (parsedLogs exampleParse [archiveA, archiveB])) = Some msg2e"
    by code_simp
  have ne: "(2::int) \<noteq> m_id msg3" by (simp add: msg3_def)
  show ?thesis
    using dedup_edit_promotion [of "[(2, msg2e)]" msg2 2 "[logA, logB]" exampleParse
            "[archiveA, archiveB]" "\<lparr>buffer = mergedAB, totalMessages = 3, duplicateMessages = 1\<rparr>" msg2e]
          dedup_edit_promotion [of "[(2, msg2)]" msg2e 2 "[logB, logA]"]
          dedup_edit_promotion [of "[(2, msg2)]" msg3 2 "[]"]
          k1 k2 k3 ne example_merge
    by (simp add: msg2_def msg2e_def)
qed

text \<open>
  Claim C2. Whenever the merge returns a log, no two of its messages have the same id and
  the messages are in ascending order of id.
\<close>

theorem merged_ids_distinct_sorted:
  assumes "combineResultJsonWithStats P cs = Inr r"
  shows "distinct (map m_id (cr_messages (buffer r))) \<and>
         sorted (map m_id (cr_messages (buffer r)))"
  using combine_Inr [OF assms]
  by (simp add: distinct_map_js_sort distinct_ids_dedupAll sorted_js_sort_byId)

theorem merged_ids_distinct_sorted_witness:
  "combineResultJsonWithStats exampleParse [archiveA, archiveB] =
     Inr \<lparr>buffer = mergedAB, totalMessages = 3, duplicateMessages = 1\<rparr>
   \<and> distinct (map m_id (cr_messages mergedAB)) \<and> sorted (map m_id (cr_messages mergedAB))
   \<and> map m_id (cr_messages mergedAB) = [1, 2, 3]"
proof -
  have "map m_id (cr_messages mergedAB) = [1, 2, 3]" by code_simp
  then show ?thesis
    using merged_ids_distinct_sorted [OF example_merge] example_merge by simp
qed

text \<open>
  Claim C4. In the returned statistics the unique count is the length of the merged
  sequence, the number of duplicates is \<open>max 0 (total - unique)\<close> where the total is the sum
  of the message counts of the logs read, and so it is never negative.
\<close>

theorem duplicates_clamped:
  assumes "combineResultJsonWithStats P cs = Inr r"
  shows "totalMessages r = int (length (cr_messages (buffer r))) \<and>
         duplicateMessages r = max 0 (spec_totalInputMessages P cs - totalMessages r) \<and>
         0 \<le> duplicateMessages r"
  using combine_Inr [OF assms] by simp

theorem duplicates_clamped_witness:
  "combineResultJsonWithStats exampleParse [archiveA, archiveB] =
     Inr \<lparr>buffer = mergedAB, totalMessages = 3, duplicateMessages = 1\<rparr>
   \<and> spec_totalInputMessages exampleParse [archiveA, archiveB] = 4
   \<and> (1::int) = max 0 (4 - 3) \<and> (3::int) = int (length (cr_messages mergedAB))"
  using duplicates_clamped [OF example_merge] example_merge example_total by simp

section \<open>Refusing archives of different chats\<close>

lemma noneFailed_Cons:
  "noneFailed P (c # cs) \<longleftrightarrow>
     (case readResultJson P c of Failed e \<Rightarrow> False | _ \<Rightarrow> True) \<and> noneFailed P cs"
  by (simp add: noneFailed_def)







section \<open>Merging a set with itself\<close>

lemma parseLoop_Cons_Skipped:
  "readResultJson P c = Skipped \<Longrightarrow> parseLoop P (c # cs) st = parseLoop P cs st"
  by simp

lemma parseLoop_Cons_Failed:
  "readResultJson P c = Failed e \<Longrightarrow>
     parseLoop P (c # cs) st = Inl (ErrorProcessing (zc_name c) e)"
  by simp

lemma parseLoop_Cons_first:
  "readResultJson P c = Parsed r \<Longrightarrow> firstChatId st = None \<Longrightarrow>
     parseLoop P (c # cs) st =
       parseLoop P cs
         (st\<lparr>totalInputMessages := totalInputMessages st + countMessages r,
             firstChatId := Some (r_id r), chatName := Some (r_name r),
             chatType := Some (r_type r), resultJsons := resultJsons st @ [r]\<rparr>)"
  by (simp add: Let_def)

lemma parseLoop_Cons_later:
  "readResultJson P c = Parsed r \<Longrightarrow> firstChatId st = Some f \<Longrightarrow>
     parseLoop P (c # cs) st =
       (if f \<noteq> r_id r then Inl (ErrorProcessing (zc_name c) (ChatIdMismatch f (r_id r)))
        else parseLoop P cs
               (st\<lparr>totalInputMessages := totalInputMessages st + countMessages r,
                   resultJsons := resultJsons st @ [r]\<rparr>))"
  by (simp add: Let_def)

lemma parseLoop_needs_from:
  "firstChatId st = Some f \<Longrightarrow> parseLoop P cs st = Inr st' \<Longrightarrow>
     noneFailed P cs \<and> (\<forall>x \<in> set (parsedLogs P cs). r_id x = f)"
proof (induction cs arbitrary: st)
  case Nil
  show ?case by (simp add: parsedLogs_def noneFailed_def)
next
  case (Cons c cs)
  show ?case
  proof (cases "readResultJson P c")
    case Skipped
    from Cons.prems(2) have "parseLoop P cs st = Inr st'"
      by (simp only: parseLoop_Cons_Skipped [OF Skipped])
    from Cons.IH [OF Cons.prems(1) this] Skipped show ?thesis
      by (simp add: parsedLogs_Cons noneFailed_Cons)
  next
    case (Failed e)
    from Cons.prems(2) show ?thesis
      by (simp only: parseLoop_Cons_Failed [OF Failed]) simp
  next
    case (Parsed r)
    let ?st = "st\<lparr>totalInputMessages := totalInputMessages st + countMessages r,
                   resultJsons := resultJsons st @ [r]\<rparr>"
    from Cons.prems(2) have eq: "f = r_id r" and rest: "parseLoop P cs ?st = Inr st'"
      unfolding parseLoop_Cons_later [OF Parsed Cons.prems(1)]
      by (simp_all split: if_splits)
    have "firstChatId ?st = Some f" using Cons.prems(1) by simp
    from Cons.IH [OF this rest] Parsed eq show ?thesis
      by (simp add: parsedLogs_Cons noneFailed_Cons)
  qed
qed

lemma parseLoop_needs:
  "firstChatId st = None \<Longrightarrow> parseLoop P cs st = Inr st' \<Longrightarrow>
     noneFailed P cs \<and>
     (\<forall>x \<in> set (parsedLogs P cs). r_id x = r_id (hd (parsedLogs P cs)))"
proof (induction cs arbitrary: st)
  case Nil
  show ?case by (simp add: parsedLogs_def noneFailed_def)
next
  case (Cons c cs)
  show ?case
  proof (cases "readResultJson P c")
    case Skipped
    from Cons.prems(2) have "parseLoop P cs st = Inr st'"
      by (simp only: parseLoop_Cons_Skipped [OF Skipped])
    from Cons.IH [OF Cons.prems(1) this] Skipped show ?thesis
      by (simp add: parsedLogs_Cons noneFailed_Cons)
  next
    case (Failed e)
    from Cons.prems(2) show ?thesis
      by (simp only: parseLoop_Cons_Failed [OF Failed]) simp
  next
    case (Parsed r)
    let ?st = "st\<lparr>totalInputMessages := totalInputMessages st + countMessages r,
             firstChatId := Some (r_id r), chatName := Some (r_name r),
             chatType := Some (r_type r), resultJsons := resultJsons st @ [r]\<rparr>"
    from Cons.prems(2) have rest: "parseLoop P cs ?st = Inr st'"
      by (simp only: parseLoop_Cons_first [OF Parsed Cons.prems(1)])
    have "firstChatId ?st = Some (r_id r)" by simp
    from parseLoop_needs_from [OF this rest] Parsed show ?thesis
      by (simp add: parsedLogs_Cons noneFailed_Cons)
  qed
qed

lemma parseLoop_succeeds_from:
  "firstChatId st = Some f \<Longrightarrow> noneFailed P cs \<Longrightarrow>
   \<forall>x \<in> set (parsedLogs P cs). r_id x = f \<Longrightarrow> \<exists>st'. parseLoop P cs st = Inr st'"
proof (induction cs arbitrary: st)
  case Nil
  show ?case by simp
next
  case (Cons c cs)
  show ?case
  proof (cases "readResultJson P c")
    case Skipped
    have "\<exists>st'. parseLoop P cs st = Inr st'"
      using Cons.prems Skipped
      by (intro Cons.IH) (simp_all add: parsedLogs_Cons noneFailed_Cons)
    then show ?thesis by (simp only: parseLoop_Cons_Skipped [OF Skipped])
  next
    case (Failed e)
    with Cons.prems(2) show ?thesis by (simp add: noneFailed_Cons)
  next
    case (Parsed r)
    let ?st = "st\<lparr>totalInputMessages := totalInputMessages st + countMessages r,
                   resultJsons := resultJsons st @ [r]\<rparr>"
    have eq: "f = r_id r" using Cons.prems(3) Parsed by (simp add: parsedLogs_Cons)
    have "\<exists>st'. parseLoop P cs ?st = Inr st'"
      using Cons.prems Parsed
      by (intro Cons.IH) (simp_all add: parsedLogs_Cons noneFailed_Cons)
    then show ?thesis
      unfolding parseLoop_Cons_later [OF Parsed Cons.prems(1)] using eq by simp
  qed
qed

lemma parseLoop_succeeds:
  "firstChatId st = None \<Longrightarrow> noneFailed P cs \<Longrightarrow>
   \<forall>x \<in> set (parsedLogs P cs). r_id x = a \<Longrightarrow> \<exists>st'. parseLoop P cs st = Inr st'"
proof (induction cs arbitrary: st)
  case Nil
  show ?case by simp
next
  case (Cons c cs)
  show ?case
  proof (cases "readResultJson P c")
    case Skipped
    have "\<exists>st'. parseLoop P cs st = Inr st'"
      using Cons.prems Skipped
      by (intro Cons.IH) (simp_all add: parsedLogs_Cons noneFailed_Cons)
    then show ?thesis by (simp only: parseLoop_Cons_Skipped [OF Skipped])
  next
    case (Failed e)
    with Cons.prems(2) show ?thesis by (simp add: noneFailed_Cons)
  next
    case (Parsed r)
    let ?st = "st\<lparr>totalInputMessages := totalInputMessages st + countMessages r,
             firstChatId := Some (r_id r), chatName := Some (r_name r),
             chatType := Some (r_type r), resultJsons := resultJsons st @ [r]\<rparr>"
    have eq: "r_id r = a" using Cons.prems(3) Parsed by (simp add: parsedLogs_Cons)
    have "\<exists>st'. parseLoop P cs ?st = Inr st'"
      using Cons.prems Parsed eq
      by (intro parseLoop_succeeds_from [where f = a]) (simp_all add: parsedLogs_Cons noneFailed_Cons)
    then show ?thesis
      by (simp only: parseLoop_Cons_first [OF Parsed Cons.prems(1)])
  qed
qed

lemma sameChat_iff:
  "sameChat P cs \<longleftrightarrow>
     noneFailed P cs \<and> parsedLogs P cs \<noteq> [] \<and>
     (\<forall>x \<in> set (parsedLogs P cs). r_id x = r_id (hd (parsedLogs P cs)))"
  unfolding sameChat_def list_all_iff ..

lemma combine_Inr_state:
  "combineResultJsonWithStats P cs = Inr r \<Longrightarrow>
     \<exists>st. parseLoop P cs initState = Inr st \<and> resultJsons st \<noteq> []"
  unfolding combineResultJsonWithStats_def
  by (auto simp: Let_def split: if_splits sum.splits)

lemma firstChatId_initState: "firstChatId initState = None"
  by (simp add: initState_def)

lemma resultJsons_initState: "resultJsons initState = []"
  by (simp add: initState_def)

lemma combine_succeeds_iff:
  "(\<exists>r. combineResultJsonWithStats P cs = Inr r) \<longleftrightarrow> sameChat P cs"
proof
  assume "\<exists>r. combineResultJsonWithStats P cs = Inr r"
  then obtain r where r: "combineResultJsonWithStats P cs = Inr r" ..
  from combine_Inr_state [OF r]
  obtain st where st: "parseLoop P cs initState = Inr st" and ne: "resultJsons st \<noteq> []"
    by blast
  from parseLoop_Inr [OF st] have "resultJsons st = parsedLogs P cs"
    by (simp add: resultJsons_initState)
  with ne have "parsedLogs P cs \<noteq> []" by simp
  with parseLoop_needs [OF firstChatId_initState st]
  show "sameChat P cs"
    unfolding sameChat_iff by blast
next
  assume a: "sameChat P cs"
  then have nf: "noneFailed P cs" and ne: "parsedLogs P cs \<noteq> []"
    and ids: "\<forall>x \<in> set (parsedLogs P cs). r_id x = r_id (hd (parsedLogs P cs))"
    unfolding sameChat_iff by blast+
  from parseLoop_succeeds [OF firstChatId_initState nf ids]
  obtain st where st: "parseLoop P cs initState = Inr st" ..
  from parseLoop_Inr [OF st] have "resultJsons st = parsedLogs P cs"
    by (simp add: resultJsons_initState)
  with ne have ne': "resultJsons st \<noteq> []" by simp
  have "cs \<noteq> []"
  proof
    assume "cs = []"
    then have "parsedLogs P cs = []" by (simp add: parsedLogs_def)
    with ne show False ..
  qed
  with st ne' show "\<exists>r. combineResultJsonWithStats P cs = Inr r"
    by (simp add: combineResultJsonWithStats_def Let_def)
qed

lemma length_allMessages: "int (length (allMessages rjs)) = sum_list (map countMessages rjs)"
  by (induction rjs) (auto simp: allMessages_def countMessages_def split: option.splits)

lemma set_allMessages:
  "set (allMessages rjs) = (\<Union>r \<in> set rjs. case r_messages r of None \<Rightarrow> {} | Some ms \<Rightarrow> set ms)"
  by (induction rjs) (auto simp: allMessages_def split: option.splits)

lemma unique_le_total:
  "int (length (Map_values (dedupAll rjs))) \<le> sum_list (map countMessages rjs)"
proof -
  have "card (m_id ` set (allMessages rjs)) \<le> card (set (allMessages rjs))"
    by (rule card_image_le) simp
  also have "\<dots> \<le> length (allMessages rjs)"
    by (rule card_length)
  finally show ?thesis
    using length_allMessages [of rjs] by (simp add: Map_values_def length_dedupAll)
qed

lemma sum_list_as_mset:
  "sum_list (map f xs) = sum_mset (image_mset f (mset xs))" for f :: "'a \<Rightarrow> int"
  by (induction xs) simp_all

lemma mset_parsedLogs:
  "mset (parsedLogs P cs) =
     (\<Sum>c \<in># mset cs. mset (case readResultJson P c of Parsed r \<Rightarrow> [r] | _ \<Rightarrow> []))"
  by (induction cs) (simp_all add: parsedLogs_Cons parsedLogs_def)

lemma doubled_facts:
  assumes "mset ds = mset cs + mset cs"
  shows "mset (parsedLogs P ds) = mset (parsedLogs P cs) + mset (parsedLogs P cs)"
    and "set (parsedLogs P ds) = set (parsedLogs P cs)"
    and "spec_totalInputMessages P ds = 2 * spec_totalInputMessages P cs"
    and "noneFailed P ds = noneFailed P cs"
proof -
  have "set_mset (mset ds) = set_mset (mset cs + mset cs)"
    by (simp only: assms)
  then have s: "set ds = set cs" by simp
  show m: "mset (parsedLogs P ds) = mset (parsedLogs P cs) + mset (parsedLogs P cs)"
    by (simp add: mset_parsedLogs assms)
  then have "set_mset (mset (parsedLogs P ds)) =
      set_mset (mset (parsedLogs P cs) + mset (parsedLogs P cs))"
    by (simp only:)
  then show "set (parsedLogs P ds) = set (parsedLogs P cs)" by simp
  show "spec_totalInputMessages P ds = 2 * spec_totalInputMessages P cs"
    by (simp add: spec_totalInputMessages_def sum_list_as_mset m)
  show "noneFailed P ds = noneFailed P cs"
    by (simp add: noneFailed_def list_all_iff s)
qed

lemma unique_count:
  "combineResultJsonWithStats P cs = Inr r \<Longrightarrow>
     totalMessages r = int (card (m_id ` set (allMessages (parsedLogs P cs))))"
  using combine_Inr [of P cs r]
  by (simp add: length_js_sort Map_values_def length_dedupAll)

text \<open>
  Claim C6, amended. When a set of archives merges, merging any arrangement of two copies of
  every archive also succeeds, with the same unique message count, and the number of
  duplicates removed in the doubled merge is the total message count of the original set
  plus the duplicates removed when the set is merged once. It is the original total only
  when the set has no duplicates of its own.
\<close>

theorem doubled_merge_counts:
  assumes "combineResultJsonWithStats P cs = Inr r" and "mset ds = mset cs + mset cs"
  shows "\<exists>r2. combineResultJsonWithStats P ds = Inr r2 \<and>
           totalMessages r2 = totalMessages r \<and>
           duplicateMessages r2 = spec_totalInputMessages P cs + duplicateMessages r"
proof -
  note d = doubled_facts [OF assms(2)]
  from assms(1) have "\<exists>r. combineResultJsonWithStats P cs = Inr r" by blast
  then have ok: "sameChat P cs"
    by (simp only: combine_succeeds_iff)
  then have ne: "parsedLogs P cs \<noteq> []"
    and ids: "\<forall>x \<in> set (parsedLogs P cs). r_id x = r_id (hd (parsedLogs P cs))"
    and nf: "noneFailed P cs"
    unfolding sameChat_iff by blast+
  have sets: "set (parsedLogs P ds) = set (parsedLogs P cs)" by (rule d(2))
  from ne sets have ne2: "parsedLogs P ds \<noteq> []"
    by (metis set_empty)
  then have "hd (parsedLogs P ds) \<in> set (parsedLogs P cs)"
    using sets by (metis hd_in_set)
  with ids have "r_id (hd (parsedLogs P ds)) = r_id (hd (parsedLogs P cs))" by blast
  with ids sets have ids2: "\<forall>x \<in> set (parsedLogs P ds). r_id x = r_id (hd (parsedLogs P ds))"
    by metis
  from nf have nf2: "noneFailed P ds" by (simp only: d(4))
  from nf2 ne2 ids2 have "sameChat P ds"
    unfolding sameChat_iff by blast
  then have "\<exists>r. combineResultJsonWithStats P ds = Inr r"
    by (simp only: combine_succeeds_iff)
  then obtain r2 where r2: "combineResultJsonWithStats P ds = Inr r2" ..
  have same: "set (allMessages (parsedLogs P ds)) = set (allMessages (parsedLogs P cs))"
    by (simp add: set_allMessages d(2))
  have u: "totalMessages r2 = totalMessages r"
    using unique_count [OF r2] unique_count [OF assms(1)] same by simp
  have le: "totalMessages r \<le> spec_totalInputMessages P cs"
    using combine_Inr [OF assms(1)] unique_le_total [of "parsedLogs P cs"]
    by (simp add: length_js_sort spec_totalInputMessages_def)
  have "duplicateMessages r2 = max 0 (2 * spec_totalInputMessages P cs - totalMessages r)"
    using combine_Inr [OF r2] u d(3) [of P] by simp
  moreover have "duplicateMessages r = max 0 (spec_totalInputMessages P cs - totalMessages r)"
    using combine_Inr [OF assms(1)] by simp
  moreover have "0 \<le> totalMessages r"
    using combine_Inr [OF assms(1)] by simp
  ultimately have "duplicateMessages r2 = spec_totalInputMessages P cs + duplicateMessages r"
    using le by (simp add: max_def)
  with r2 u show ?thesis by blast
qed

lemma example_doubled:
  "combineResultJsonWithStats exampleParse [archiveA, archiveB, archiveA, archiveB] =
     Inr \<lparr>buffer = mergedAB, totalMessages = 3, duplicateMessages = 5\<rparr>"
  by code_simp

theorem doubled_merge_counts_witness:
  "combineResultJsonWithStats exampleParse [archiveA, archiveB] =
     Inr \<lparr>buffer = mergedAB, totalMessages = 3, duplicateMessages = 1\<rparr> \<and>
   mset [archiveA, archiveB, archiveA, archiveB] =
     mset [archiveA, archiveB] + mset [archiveA, archiveB] \<and>
   combineResultJsonWithStats exampleParse [archiveA, archiveB, archiveA, archiveB] =
     Inr \<lparr>buffer = mergedAB, totalMessages = 3, duplicateMessages = 5\<rparr> \<and>
   (5::int) = spec_totalInputMessages exampleParse [archiveA, archiveB] + 1"
proof -
  have m: "mset [archiveA, archiveB, archiveA, archiveB] =
     mset [archiveA, archiveB] + mset [archiveA, archiveB]" by simp
  show ?thesis
    using doubled_merge_counts [OF example_merge m] example_merge example_doubled m
    by auto
qed

text \<open>
  The claim as written fails on archives A and B, which share message 2: their total is 4
  messages, and the doubled merge removes 5 duplicates.
\<close>

theorem doubled_merge_duplicates_counterexample:
  "combineResultJsonWithStats exampleParse ([archiveA, archiveB] @ [archiveA, archiveB]) =
     Inr \<lparr>buffer = mergedAB, totalMessages = 3, duplicateMessages = 5\<rparr> \<and>
   spec_totalInputMessages exampleParse [archiveA, archiveB] = 4 \<and>
   duplicateMessages (projr (combineResultJsonWithStats exampleParse
       ([archiveA, archiveB] @ [archiveA, archiveB]))) \<noteq>
     spec_totalInputMessages exampleParse [archiveA, archiveB]"
  using example_doubled example_total by simp

section \<open>Packaging under two hosts\<close>

lemma timestamp_half_draw: "getTimestampFromPath 1700000000000 (1/2) ''photos/a.jpg'' = 1699995001200"
  by (simp add: getTimestampFromPath_def)

lemma timestamp_zero_draw: "getTimestampFromPath 1700000000000 0 ''photos/a.jpg'' = 1700000001200"
  by (simp add: getTimestampFromPath_def)

lemma pack_first:
  "packLoop hostFirstWins [archiveA, archiveB]
     \<lparr>combinedZip = [], fileMap = [], folders = [], totalFiles = 0, calls = 0\<rparr> =
   Inr \<lparr>combinedZip = [(''photos/a.jpg'', Bytes ''old'')],
        fileMap = [(''photos/a.jpg'', 1700000001200)],
        folders = [''photos''], totalFiles = 1, calls = 2\<rparr>"
  by (simp add: archiveA_def archiveB_def fileA_def fileB_def entriesB_def fileEntry_def dirEntry_def
      fileStep_def Let_def hostFirstWins_def getTimestampFromPath_def Set_add_def
      sublist_Cons_right)

lemma pack_later:
  "packLoop hostLaterWins [archiveA, archiveB]
     \<lparr>combinedZip = [], fileMap = [], folders = [], totalFiles = 0, calls = 0\<rparr> =
   Inr \<lparr>combinedZip = [(''photos/a.jpg'', Bytes ''new'')],
        fileMap = [(''photos/a.jpg'', 1700000001200)],
        folders = [''photos''], totalFiles = 2, calls = 2\<rparr>"
  by (simp add: archiveA_def archiveB_def fileA_def fileB_def entriesB_def fileEntry_def dirEntry_def
      fileStep_def Let_def hostLaterWins_def getTimestampFromPath_def Set_add_def
      sublist_Cons_right)

lemma valid_AB:
  "filter (\<lambda>content. \<not> truthy (zc_error content)) [archiveA, archiveB] = [archiveA, archiveB]"
  by (simp add: archiveA_def archiveB_def)

lemma combine_first:
  "combineZipContents exampleParse hostFirstWins [archiveA, archiveB] =
     Inr \<lparr>res_blob = [(''photos/a.jpg'', Bytes ''old''), (''result.json'', MergedLog mergedAB)],
          res_totalMessages = 3, res_duplicateMessages = 1, res_folders = [''photos''],
          res_totalFiles = 1\<rparr>"
  unfolding combineZipContents_def Let_def valid_AB pack_first example_merge by simp

lemma combine_later:
  "combineZipContents exampleParse hostLaterWins [archiveA, archiveB] =
     Inr \<lparr>res_blob = [(''photos/a.jpg'', Bytes ''new''), (''result.json'', MergedLog mergedAB)],
          res_totalMessages = 3, res_duplicateMessages = 1, res_folders = [''photos''],
          res_totalFiles = 2\<rparr>"
  unfolding combineZipContents_def Let_def valid_AB pack_later example_merge by simp

lemma admissible_hosts: "admissible hostFirstWins \<and> admissible hostLaterWins"
  by (simp add: admissible_def hostFirstWins_def hostLaterWins_def)

text \<open>
  Claim C7. The claim says that \<open>totalFiles\<close> is the number of distinct paths written as
  ordinary files. The counter is incremented at every write, also when a later copy
  replaces the kept one: archives A and B both hold \<open>photos/a.jpg\<close>, and on a host where
  the later copy scores higher the output holds that one file while \<open>totalFiles\<close> is 2.
\<close>

theorem totalFiles_counts_replacements:
  "combineZipContents exampleParse hostLaterWins [archiveA, archiveB] =
     Inr \<lparr>res_blob = [(''photos/a.jpg'', Bytes ''new''), (''result.json'', MergedLog mergedAB)],
          res_totalMessages = 3, res_duplicateMessages = 1, res_folders = [''photos''],
          res_totalFiles = 2\<rparr> \<and>
   ordinaryFiles (res_blob (projr (combineZipContents exampleParse hostLaterWins
       [archiveA, archiveB]))) = [''photos/a.jpg''] \<and>
   res_totalFiles (projr (combineZipContents exampleParse hostLaterWins [archiveA, archiveB]))
     \<noteq> length (ordinaryFiles (res_blob (projr (combineZipContents exampleParse hostLaterWins
         [archiveA, archiveB]))))"
  by (simp add: combine_later ordinaryFiles_def)

text \<open>
  Claim C10. The recency score of a path changes with the clock reading and with the
  random draw. For the fixed archives A and B, which hold different bytes under the same
  path, two admissible hosts give two different outputs: one keeps the copy of A and
  counts 1 file, the other keeps the copy of B and counts 2.
\<close>

theorem winner_depends_on_host:
  "getTimestampFromPath 0 0 ''photos/a.jpg'' \<noteq> getTimestampFromPath 1 0 ''photos/a.jpg'' \<and>
   getTimestampFromPath 0 0 ''photos/a.jpg'' \<noteq> getTimestampFromPath 0 (1 / 2) ''photos/a.jpg'' \<and>
   admissible hostFirstWins \<and> admissible hostLaterWins \<and>
   (\<exists>out1 out2.
      combineZipContents exampleParse hostFirstWins [archiveA, archiveB] = Inr out1 \<and>
      combineZipContents exampleParse hostLaterWins [archiveA, archiveB] = Inr out2 \<and>
      Map_get (res_blob out1) ''photos/a.jpg'' = Some (Bytes ''old'') \<and>
      Map_get (res_blob out2) ''photos/a.jpg'' = Some (Bytes ''new'') \<and>
      res_totalFiles out1 = 1 \<and> res_totalFiles out2 = 2)"
  by (simp add: combine_first combine_later admissible_hosts getTimestampFromPath_def)

theorem winner_depends_on_host_witness:
  "combineZipContents exampleParse hostFirstWins [archiveA, archiveB] \<noteq>
   combineZipContents exampleParse hostLaterWins [archiveA, archiveB]"
  using winner_depends_on_host by auto

section \<open>Locating the message log\<close>

lemma js_split_nonempty: "js_split s \<noteq> []"
  by (induction s) (auto split: list.splits)

lemma js_join_Cons: "ys \<noteq> [] \<Longrightarrow> js_join (x # ys) = x @ ''/'' @ js_join ys"
  by (cases ys) auto

lemma js_join_split: "js_join (js_split s) = s"
proof (induction s)
  case Nil
  show ?case by simp
next
  case (Cons c s)
  show ?case
  proof (cases "c = CHR ''/''")
    case True
    then show ?thesis using Cons js_split_nonempty [of s] by (simp add: js_join_Cons)
  next
    case False
    obtain y ys where y: "js_split s = y # ys"
      using js_split_nonempty [of s] by (cases "js_split s") auto
    with Cons have "js_join (y # ys) = s" by simp
    then have "js_join ((c # y) # ys) = c # s" by (cases ys) auto
    with False y show ?thesis by simp
  qed
qed

















section \<open>The order of the top-level summary\<close>

lemma comparator_compareBy: "comparator (compareBy key)"
  unfolding comparator_def compareBy_def by (auto split: if_splits)

lemma comparator_itemCompare:
  assumes "comparator lc"
  shows "comparator (itemCompare lc)"
proof -
  from assms have tot: "\<And>a b. 0 < lc a b \<Longrightarrow> lc b a \<le> 0"
    and tr: "\<And>a b c. lc a b \<le> 0 \<Longrightarrow> lc b c \<le> 0 \<Longrightarrow> lc a c \<le> 0"
    unfolding comparator_def by blast+
  have 1: "itemCompare lc b a \<le> 0" if "0 < itemCompare lc a b" for a b
    using that tot [of "fi_name a" "fi_name b"]
    by (auto simp: itemCompare_def split: if_splits)
  have 2: "itemCompare lc a c \<le> 0"
    if "itemCompare lc a b \<le> 0" and "itemCompare lc b c \<le> 0" for a b c
    using that tr [of "fi_name a" "fi_name b" "fi_name c"]
    by (auto simp: itemCompare_def split: if_splits)
  from 1 2 show ?thesis unfolding comparator_def by blast
qed

lemma directories_first:
  "sorted_wrt (\<lambda>a b. itemCompare lc a b \<le> 0) xs \<Longrightarrow>
     xs = filter fi_isDirectory xs @ filter (\<lambda>i. \<not> fi_isDirectory i) xs"
proof (induction xs)
  case Nil
  show ?case by simp
next
  case (Cons x xs)
  then have ih: "xs = filter fi_isDirectory xs @ filter (\<lambda>i. \<not> fi_isDirectory i) xs"
    and after: "\<forall>y \<in> set xs. itemCompare lc x y \<le> 0"
    by simp_all
  show ?case
  proof (cases "fi_isDirectory x")
    case True
    have "filter fi_isDirectory (x # xs) @ filter (\<lambda>i. \<not> fi_isDirectory i) (x # xs) =
          x # (filter fi_isDirectory xs @ filter (\<lambda>i. \<not> fi_isDirectory i) xs)"
      using True by simp
    with ih show ?thesis by (simp only:)
  next
    case False
    have "\<not> fi_isDirectory y" if "y \<in> set xs" for y
    proof
      assume "fi_isDirectory y"
      with False have "itemCompare lc x y = 1" by (simp add: itemCompare_def)
      with after that show False by auto
    qed
    then have "filter fi_isDirectory xs = []" and "filter (\<lambda>i. \<not> fi_isDirectory i) xs = xs"
      by (simp_all add: filter_empty_conv filter_id_conv)
    with False show ?thesis by simp
  qed
qed

lemma group_sorted:
  assumes "sorted_wrt (\<lambda>a b. itemCompare lc a b \<le> 0) xs"
  shows "sorted_wrt (\<lambda>a b. lc (fi_name a) (fi_name b) \<le> 0) (filter fi_isDirectory xs)"
    and "sorted_wrt (\<lambda>a b. lc (fi_name a) (fi_name b) \<le> 0)
           (filter (\<lambda>i. \<not> fi_isDirectory i) xs)"
proof -
  have d: "sorted_wrt (\<lambda>a b. itemCompare lc a b \<le> 0) (filter fi_isDirectory xs)"
    using assms by (rule sorted_wrt_filter)
  show "sorted_wrt (\<lambda>a b. lc (fi_name a) (fi_name b) \<le> 0) (filter fi_isDirectory xs)"
    by (rule sorted_wrt_mono_rel [OF _ d]) (simp add: itemCompare_def)
  have f: "sorted_wrt (\<lambda>a b. itemCompare lc a b \<le> 0) (filter (\<lambda>i. \<not> fi_isDirectory i) xs)"
    using assms by (rule sorted_wrt_filter)
  show "sorted_wrt (\<lambda>a b. lc (fi_name a) (fi_name b) \<le> 0)
           (filter (\<lambda>i. \<not> fi_isDirectory i) xs)"
    by (rule sorted_wrt_mono_rel [OF _ f]) (simp add: itemCompare_def)
qed

lemma unzipFile_items:
  "unzipFile lc uuid file = Inr zc \<Longrightarrow>
     \<exists>items. zc_topLevelItems zc = js_sort (itemCompare lc) items"
  by (auto simp: unzipFile_def Let_def split: option.splits)

text \<open>
  Claim C8, amended. For every consistent host comparison \<open>localeCompare\<close>, the summary
  of an inspected archive has all directories before all files, and each of the two groups
  is in the order of \<open>localeCompare\<close> on the names. That order is the host's
  locale-sensitive one and need not be the case-sensitive order by character code.
\<close>

theorem summary_sorted_by_host_comparison:
  assumes "comparator localeCompare" and "unzipFile localeCompare uuid file = Inr zc"
  shows "zc_topLevelItems zc =
           filter fi_isDirectory (zc_topLevelItems zc) @
           filter (\<lambda>i. \<not> fi_isDirectory i) (zc_topLevelItems zc) \<and>
         sorted_wrt (\<lambda>a b. localeCompare (fi_name a) (fi_name b) \<le> 0)
           (filter fi_isDirectory (zc_topLevelItems zc)) \<and>
         sorted_wrt (\<lambda>a b. localeCompare (fi_name a) (fi_name b) \<le> 0)
           (filter (\<lambda>i. \<not> fi_isDirectory i) (zc_topLevelItems zc))"
proof -
  from unzipFile_items [OF assms(2)] obtain items
    where "zc_topLevelItems zc = js_sort (itemCompare localeCompare) items" ..
  with sorted_js_sort [OF comparator_itemCompare [OF assms(1)], of items]
  have s: "sorted_wrt (\<lambda>a b. itemCompare localeCompare a b \<le> 0) (zc_topLevelItems zc)"
    by simp
  from directories_first [OF s] group_sorted [OF s] show ?thesis by blast
qed

lemma mixed_located:
  "locate mixedCaseEntries =
     \<lparr>hasResultsJson = True, resultJsonPath = ''result.json'', rootPrefix = []\<rparr>"
  by code_simp

lemma mixed_collected:
  "foldl (collectStep []) ([], []) mixedCaseEntries =
     ([''result.json'', ''Zebra.txt'', ''apple.txt'', ''media/b.jpg''],
      [(''media'', [''media/b.jpg''])])"
  by code_simp

lemma mixed_summary:
  "fst (foldl (summaryStep [] [(''media'', [''media/b.jpg''])]) ([], []) mixedCaseEntries) =
     mixedItems"
  by code_simp

lemma mixed_sorted_collation:
  "map fi_name (js_sort (itemCompare collationCompare) mixedItems) =
     [''media'', ''apple.txt'', ''result.json'', ''Zebra.txt'']"
  by code_simp

lemma mixed_sorted_codeUnit:
  "map fi_name (js_sort (itemCompare codeUnitCompare) mixedItems) =
     [''media'', ''Zebra.txt'', ''apple.txt'', ''result.json'']"
  by code_simp

lemma mixed_unzip:
  "zc_topLevelItems (projr (unzipFile lc ''id-m'' fileMixedCase)) =
     js_sort (itemCompare lc) mixedItems"
  by (simp add: unzipFile_def fileMixedCase_def Let_def mixed_located mixed_collected
      mixed_summary)

lemma unsorted_names: "\<not> sorted [''apple.txt'', ''result.json'', ''Zebra.txt'']"
  by code_simp

lemma unzipFile_Inr:
  "file_zip file = Some content \<Longrightarrow>
     unzipFile lc uuid file = Inr (projr (unzipFile lc uuid file))"
  by (simp add: unzipFile_def Let_def)

lemma mixed_items_collation:
  "js_sort (itemCompare collationCompare) mixedItems =
     [\<lparr>fi_name = ''media'', fi_path = ''media/'', fi_size = 0,
       fi_isDirectory = True, fi_fileCount = Some 1\<rparr>,
      \<lparr>fi_name = ''apple.txt'', fi_path = ''apple.txt'', fi_size = 0,
       fi_isDirectory = False, fi_fileCount = None\<rparr>,
      \<lparr>fi_name = ''result.json'', fi_path = ''result.json'', fi_size = 0,
       fi_isDirectory = False, fi_fileCount = None\<rparr>,
      \<lparr>fi_name = ''Zebra.txt'', fi_path = ''Zebra.txt'', fi_size = 0,
       fi_isDirectory = False, fi_fileCount = None\<rparr>]"
  by code_simp

theorem summary_sorted_by_host_comparison_witness:
  "comparator collationCompare \<and>
   unzipFile collationCompare ''id-m'' fileMixedCase =
     Inr (projr (unzipFile collationCompare ''id-m'' fileMixedCase)) \<and>
   map fi_name (zc_topLevelItems (projr (unzipFile collationCompare ''id-m'' fileMixedCase))) =
     [''media'', ''apple.txt'', ''result.json'', ''Zebra.txt''] \<and>
   map fi_name (filter fi_isDirectory
     (zc_topLevelItems (projr (unzipFile collationCompare ''id-m'' fileMixedCase)))) =
     [''media''] \<and>
   sorted_wrt (\<lambda>a b. collationCompare (fi_name a) (fi_name b) \<le> 0)
     (filter (\<lambda>i. \<not> fi_isDirectory i)
        (zc_topLevelItems (projr (unzipFile collationCompare ''id-m'' fileMixedCase))))"
proof -
  have c: "comparator collationCompare"
    unfolding collationCompare_def by (rule comparator_compareBy)
  have u: "unzipFile collationCompare ''id-m'' fileMixedCase =
      Inr (projr (unzipFile collationCompare ''id-m'' fileMixedCase))"
    by (rule unzipFile_Inr [of _ mixedCaseEntries]) (simp add: fileMixedCase_def)
  from summary_sorted_by_host_comparison [OF c u] c u show ?thesis
    by (simp add: mixed_unzip mixed_items_collation)
qed

text \<open>
  The claim as written fails for a host comparison that orders names alphabetically
  regardless of case, as the default collations do: the files \<open>Zebra.txt\<close> and
  \<open>apple.txt\<close> come out as \<open>apple.txt\<close>, \<open>result.json\<close>, \<open>Zebra.txt\<close>, which is not the
  case-sensitive lexicographic order (there \<open>Zebra.txt\<close> is first).
\<close>

theorem case_sensitive_order_counterexample:
  "map fi_name (zc_topLevelItems (projr (unzipFile collationCompare ''id-m'' fileMixedCase))) =
     [''media'', ''apple.txt'', ''result.json'', ''Zebra.txt''] \<and>
   \<not> sorted (map fi_name (filter (\<lambda>i. \<not> fi_isDirectory i)
     (zc_topLevelItems (projr (unzipFile collationCompare ''id-m'' fileMixedCase)))))"
  using unsorted_names by (simp add: mixed_unzip mixed_items_collation)

section \<open>Sizes in the top-level summary\<close>

lemma commented_located:
  "locate commentedEntries =
     \<lparr>hasResultsJson = True, resultJsonPath = ''result.json'', rootPrefix = []\<rparr>"
  by code_simp

lemma commented_collected:
  "foldl (collectStep []) ([], []) commentedEntries = ([''result.json'', ''notes.txt''], [])"
  by code_simp

lemma commented_summary:
  "fst (foldl (summaryStep [] []) ([], []) commentedEntries) =
     [\<lparr>fi_name = ''result.json'', fi_path = ''result.json'', fi_size = 0,
       fi_isDirectory = False, fi_fileCount = None\<rparr>,
      \<lparr>fi_name = ''notes.txt'', fi_path = ''notes.txt'', fi_size = 2,
       fi_isDirectory = False, fi_fileCount = None\<rparr>]"
  by code_simp

lemma commented_sorted:
  "js_sort (itemCompare codeUnitCompare)
     [\<lparr>fi_name = ''result.json'', fi_path = ''result.json'', fi_size = 0,
       fi_isDirectory = False, fi_fileCount = None\<rparr>,
      \<lparr>fi_name = ''notes.txt'', fi_path = ''notes.txt'', fi_size = 2,
       fi_isDirectory = False, fi_fileCount = None\<rparr>] =
     [\<lparr>fi_name = ''notes.txt'', fi_path = ''notes.txt'', fi_size = 2,
       fi_isDirectory = False, fi_fileCount = None\<rparr>,
      \<lparr>fi_name = ''result.json'', fi_path = ''result.json'', fi_size = 0,
       fi_isDirectory = False, fi_fileCount = None\<rparr>]"
  by code_simp

text \<open>
  Claim C9. The claim says that a file entry's size is the file's size metadata, or 0
  when none is available. The code takes the length of the entry's comment: a file
  \<open>notes.txt\<close> of 5 bytes with the comment \<open>hi\<close> is reported with size 2.
\<close>

theorem file_size_is_comment_length:
  "zip_file commentedEntries ''notes.txt'' = Some notesEntry \<and>
   length (e_data notesEntry) = 5 \<and> e_comment notesEntry = Some ''hi'' \<and>
   zc_topLevelItems (projr (unzipFile codeUnitCompare ''id-n'' fileCommented)) =
     [\<lparr>fi_name = ''notes.txt'', fi_path = ''notes.txt'', fi_size = 2,
       fi_isDirectory = False, fi_fileCount = None\<rparr>,
      \<lparr>fi_name = ''result.json'', fi_path = ''result.json'', fi_size = 0,
       fi_isDirectory = False, fi_fileCount = None\<rparr>]"
proof -
  have "zip_file commentedEntries ''notes.txt'' = Some notesEntry" by code_simp
  moreover have "length (e_data notesEntry) = 5" "e_comment notesEntry = Some ''hi''"
    by (simp_all add: notesEntry_def)
  ultimately show ?thesis
    by (simp add: unzipFile_def fileCommented_def Let_def commented_located
        commented_collected commented_summary commented_sorted)
qed

section \<open>What the summary reports for each item\<close>

lemma trackFile_inv:
  assumes "\<And>f. pathsOf fc f = underFolder f allFiles"
  shows "pathsOf (snd (trackFile p (allFiles, fc))) f =
           underFolder f (fst (trackFile p (allFiles, fc)))"
proof (cases "CHR ''/'' \<in> set p")
  case False
  then show ?thesis using assms [of f] by (simp add: trackFile_def underFolder_def)
next
  case True
  have "pathsOf (Map_set (hd (js_split p)) (pathsOf fc (hd (js_split p)) @ [p]) fc) f =
        underFolder f (allFiles @ [p])"
    using assms [of f] assms [of "hd (js_split p)"] True
    by (simp add: pathsOf_def Map_get_set underFolder_def)
  with True show ?thesis by (simp add: trackFile_def Let_def pathsOf_def)
qed

lemma collectStep_inv:
  assumes "\<And>f. pathsOf (snd st) f = underFolder f (fst st)"
  shows "pathsOf (snd (collectStep r st e)) f = underFolder f (fst (collectStep r st e))"
proof -
  obtain allFiles fc where st: "st = (allFiles, fc)" by (cases st)
  with assms have a: "\<And>f. pathsOf fc f = underFolder f allFiles" by simp
  have t: "\<And>p. pathsOf (snd (trackFile p st)) f = underFolder f (fst (trackFile p st))"
    unfolding st by (rule trackFile_inv [OF a])
  show ?thesis using t assms [of f] by (simp add: collectStep_def Let_def)
qed

lemma collect_inv:
  "(\<And>f. pathsOf (snd st) f = underFolder f (fst st)) \<Longrightarrow>
     pathsOf (snd (foldl (collectStep r) st es)) f =
       underFolder f (fst (foldl (collectStep r) st es))"
proof (induction es arbitrary: st f)
  case Nil
  then show ?case by simp
next
  case (Cons e es)
  show ?case
    unfolding foldl_Cons
    by (rule Cons.IH) (rule collectStep_inv, rule Cons.prems)
qed

lemma collected_folders:
  "pathsOf (snd (foldl (collectStep r) ([], []) content)) f =
     underFolder f (fst (foldl (collectStep r) ([], []) content))"
  by (rule collect_inv) (simp add: pathsOf_def underFolder_def)

lemma single_part: "length (js_split p) = 1 \<Longrightarrow> hd (js_split p) = p"
proof -
  assume "length (js_split p) = 1"
  then obtain x where x: "js_split p = [x]"
    by (cases "js_split p") auto
  then have "js_join [x] = p" using js_join_split [of p] by simp
  with x show ?thesis by simp
qed

lemma processFilePath_ok:
  assumes "\<forall>i \<in> set (fst st). itemOk fc content r i"
    and "e \<in> set content" and "e_name e = r @ p"
  shows "\<forall>i \<in> set (fst (processFilePath fc p e st)). itemOk fc content r i"
proof -
  obtain items seen where st: "st = (items, seen)" by (cases st)
  have fileItem: "itemOk fc content r
      \<lparr>fi_name = hd (js_split p), fi_path = p, fi_size = reportedSize e,
       fi_isDirectory = False, fi_fileCount = None\<rparr>"
    if "length (js_split p) = 1" "\<not> e_dir e"
    using that assms(2,3) single_part [of p] by (auto simp: itemOk_def)
  have dirItem: "itemOk fc content r
      \<lparr>fi_name = t, fi_path = t @ ''/'', fi_size = 0, fi_isDirectory = True,
       fi_fileCount = Some (length (pathsOf fc t))\<rparr>" for t
    by (simp add: itemOk_def)
  show ?thesis
    using assms(1) fileItem dirItem [of "hd (js_split p)"]
    by (auto simp: st processFilePath_def Let_def pathsOf_def reportedSize_def)
qed

lemma summaryStep_ok:
  assumes "\<forall>i \<in> set (fst st). itemOk fc content r i" and "e \<in> set content"
  shows "\<forall>i \<in> set (fst (summaryStep r fc st e)). itemOk fc content r i"
proof (cases "skipEntry (e_name e)")
  case True
  with assms(1) show ?thesis by (simp add: summaryStep_def)
next
  case False
  show ?thesis
  proof (cases "r = []")
    case True
    have "\<forall>i \<in> set (fst (processFilePath fc (e_name e) e st)). itemOk fc content r i"
      using assms True by (intro processFilePath_ok) simp_all
    with False True show ?thesis by (simp add: summaryStep_def)
  next
    case nonempty: False
    show ?thesis
    proof (cases "prefix r (e_name e) \<and> drop (length r) (e_name e) \<noteq> []")
      case True
      then have "e_name e = r @ drop (length r) (e_name e)"
        by (auto simp: prefix_def)
      then have "\<forall>i \<in> set (fst (processFilePath fc (drop (length r) (e_name e)) e st)).
          itemOk fc content r i"
        using assms by (intro processFilePath_ok) simp_all
      with False nonempty True show ?thesis by (simp add: summaryStep_def Let_def)
    next
      case False
      with assms(1) \<open>\<not> skipEntry (e_name e)\<close> nonempty show ?thesis
        by (auto simp: summaryStep_def Let_def)
    qed
  qed
qed

lemma summary_ok:
  "\<forall>i \<in> set (fst st). itemOk fc content r i \<Longrightarrow> set es \<subseteq> set content \<Longrightarrow>
     \<forall>i \<in> set (fst (foldl (summaryStep r fc) st es)). itemOk fc content r i"
proof (induction es arbitrary: st)
  case Nil
  then show ?case by simp
next
  case (Cons e es)
  have "\<forall>i \<in> set (fst (summaryStep r fc st e)). itemOk fc content r i"
    using Cons.prems by (intro summaryStep_ok) simp_all
  then show ?case
    unfolding foldl_Cons using Cons.prems(2) by (intro Cons.IH) simp_all
qed

lemma unzipFile_parts:
  "file_zip file = Some content \<Longrightarrow> unzipFile lc uuid file = Inr zc \<Longrightarrow>
     zc_rootPrefix zc = rootPrefix (locate content) \<and>
     zc_files zc = fst (foldl (collectStep (rootPrefix (locate content))) ([], []) content) \<and>
     zc_topLevelItems zc =
       js_sort (itemCompare lc)
         (fst (foldl (summaryStep (rootPrefix (locate content))
                 (snd (foldl (collectStep (rootPrefix (locate content))) ([], []) content)))
               ([], []) content))"
  by (auto simp: unzipFile_def Let_def)

text \<open>
  For every item of the summary of an inspected archive: a directory item has size 0 and
  its child count is the number of root-relative file paths collected under that first
  segment; a file item has no child count, stands for a file entry of the archive at the
  root prefix followed by its name, and its size is the length of that entry's comment
  (0 when the entry has none).
\<close>

theorem summary_items_reported:
  assumes "file_zip file = Some content" and "unzipFile lc uuid file = Inr zc"
    and "item \<in> set (zc_topLevelItems zc)"
  shows "if fi_isDirectory item
         then fi_size item = 0 \<and>
              fi_fileCount item = Some (length (underFolder (fi_name item) (zc_files zc)))
         else fi_fileCount item = None \<and>
              (\<exists>e \<in> set content. \<not> e_dir e \<and> e_name e = zc_rootPrefix zc @ fi_name item \<and>
                 fi_size item = (case e_comment e of None \<Rightarrow> 0 | Some c \<Rightarrow> length c))"
proof -
  let ?r = "rootPrefix (locate content)"
  let ?c = "foldl (collectStep ?r) ([], []) content"
  note parts = unzipFile_parts [OF assms(1,2)]
  have "\<forall>i \<in> set (fst (foldl (summaryStep ?r (snd ?c)) ([], []) content)).
          itemOk (snd ?c) content ?r i"
    by (rule summary_ok) simp_all
  with assms(3) parts have ok: "itemOk (snd ?c) content ?r item"
    by (simp add: set_js_sort)
  from parts have r: "zc_rootPrefix zc = ?r" and f: "zc_files zc = fst ?c" by simp_all
  have pf: "pathsOf (snd ?c) (fi_name item) = underFolder (fi_name item) (zc_files zc)"
    unfolding f by (rule collected_folders)
  from ok show ?thesis
    unfolding itemOk_def reportedSize_def pf r .
qed

lemma mixed_files:
  "zc_files (projr (unzipFile lc ''id-m'' fileMixedCase)) =
     [''result.json'', ''Zebra.txt'', ''apple.txt'', ''media/b.jpg'']"
  by (simp add: unzipFile_def fileMixedCase_def Let_def mixed_located mixed_collected)

theorem summary_items_reported_witness:
  "\<lparr>fi_name = ''media'', fi_path = ''media/'', fi_size = 0, fi_isDirectory = True,
     fi_fileCount = Some 1\<rparr>
     \<in> set (zc_topLevelItems (projr (unzipFile collationCompare ''id-m'' fileMixedCase))) \<and>
   Some (1::nat) = Some (length (underFolder ''media''
     (zc_files (projr (unzipFile collationCompare ''id-m'' fileMixedCase))))) \<and>
   underFolder ''media'' (zc_files (projr (unzipFile collationCompare ''id-m'' fileMixedCase))) =
     [''media/b.jpg'']"
proof -
  have f: "file_zip fileMixedCase = Some mixedCaseEntries" by (simp add: fileMixedCase_def)
  have u: "unzipFile collationCompare ''id-m'' fileMixedCase =
      Inr (projr (unzipFile collationCompare ''id-m'' fileMixedCase))"
    by (rule unzipFile_Inr [OF f])
  have m: "\<lparr>fi_name = ''media'', fi_path = ''media/'', fi_size = 0, fi_isDirectory = True,
     fi_fileCount = Some 1\<rparr>
     \<in> set (zc_topLevelItems (projr (unzipFile collationCompare ''id-m'' fileMixedCase)))"
    by (simp add: mixed_unzip mixed_items_collation)
  have c: "underFolder ''media'' [''result.json'', ''Zebra.txt'', ''apple.txt'', ''media/b.jpg''] =
     [''media/b.jpg'']" by code_simp
  from summary_items_reported [OF f u m] m c show ?thesis
    by (simp add: mixed_files)
qed

section \<open>Further properties of the merge and of the inspection\<close>

text \<open>
  The unique count never exceeds the total number of input messages, so the clamp at 0 is
  never active: the number of duplicates removed is exactly the difference.
\<close>

theorem duplicates_exact:
  assumes "combineResultJsonWithStats P cs = Inr r"
  shows "totalMessages r \<le> spec_totalInputMessages P cs \<and>
         duplicateMessages r = spec_totalInputMessages P cs - totalMessages r"
proof -
  have "totalMessages r \<le> spec_totalInputMessages P cs"
    using combine_Inr [OF assms] unique_le_total [of "parsedLogs P cs"]
    by (simp add: length_js_sort spec_totalInputMessages_def)
  with combine_Inr [OF assms] show ?thesis by simp
qed

theorem duplicates_exact_witness:
  "combineResultJsonWithStats exampleParse [archiveA, archiveB] =
     Inr \<lparr>buffer = mergedAB, totalMessages = 3, duplicateMessages = 1\<rparr> \<and>
   (3::int) \<le> spec_totalInputMessages exampleParse [archiveA, archiveB] \<and>
   (1::int) = spec_totalInputMessages exampleParse [archiveA, archiveB] - 3"
  using duplicates_exact [OF example_merge] example_merge by simp

lemma fileB_located:
  "locate entriesB =
     \<lparr>hasResultsJson = True, resultJsonPath = ''export/chat/result.json'',
      rootPrefix = ''export/chat/''\<rparr>"
  by code_simp

lemma fileB_collected:
  "foldl (collectStep ''export/chat/'') ([], []) entriesB =
     ([''result.json'', ''photos/a.jpg''], [(''photos'', [''photos/a.jpg''])])"
  by code_simp

lemma fileB_summary:
  "js_sort (itemCompare codeUnitCompare)
     (fst (foldl (summaryStep ''export/chat/'' [(''photos'', [''photos/a.jpg''])]) ([], []) entriesB)) =
     zc_topLevelItems archiveB"
  by code_simp

text \<open>
  The inspection of an archive whose log lies at \<open>export/chat/result.json\<close>: the root prefix
  is \<open>export/chat/\<close>, the file \<open>export/chat/photos/a.jpg\<close> is listed as \<open>photos/a.jpg\<close>,
  and the entry outside the root is left out.
\<close>

theorem inspect_nested_archive:
  "unzipFile codeUnitCompare ''id-b'' fileB = Inr archiveB \<and>
   zc_rootPrefix archiveB = ''export/chat/'' \<and>
   zc_files archiveB = [''result.json'', ''photos/a.jpg''] \<and> zc_error archiveB = None"
proof -
  have "unzipFile codeUnitCompare ''id-b'' fileB = Inr archiveB"
    by (simp add: unzipFile_def fileB_def Let_def fileB_located fileB_collected fileB_summary)
       (simp add: archiveB_def fileB_def)
  then show ?thesis by (simp add: archiveB_def)
qed

end
